theory Spec2Isabelle
  imports Main "HOL-Library.Sublist"
begin

section \<open>JavaScript values used by scripts/fetch.js\<close>

text \<open>
  A JavaScript string is a sequence of UTF-16 code units; a code unit is a natural
  number here. \<open>lit\<close> turns an ASCII literal of the source into its code units.
\<close>

type_synonym jsstring = "nat list"

definition lit :: "string \<Rightarrow> jsstring" where
  "lit s = map of_char s"

text \<open>
  The fields of a Drive listing entry are typed \<open>string | null | undefined\<close>.
  Strict (in)equality \<open>!==\<close> on such values is equality of this datatype.
\<close>

datatype 'a nullable = Undefined | Null | Val 'a

text \<open>\<open>!x\<close> on a possibly missing string: missing values and the empty string are falsy.\<close>

fun falsy :: "jsstring nullable \<Rightarrow> bool" where
  "falsy Undefined = True"
| "falsy Null = True"
| "falsy (Val s) = (s = [])"

text \<open>A template literal \<open>`${x}`\<close> prints a missing value by its name.\<close>

fun template :: "jsstring nullable \<Rightarrow> jsstring" where
  "template Undefined = lit ''undefined''"
| "template Null = lit ''null''"
| "template (Val s) = s"

text \<open>\<open>s.includes(x)\<close>: \<open>x\<close> occurs in \<open>s\<close> as a contiguous run of code units.\<close>

fun str_includes :: "jsstring \<Rightarrow> jsstring \<Rightarrow> bool" where
  "str_includes [] x = (x = [])"
| "str_includes (c # cs) x = (prefix x (c # cs) \<or> str_includes cs x)"

text \<open>
  \<open>String.prototype.trim\<close> strips WhiteSpace and LineTerminator code units from
  both ends.
\<close>

definition is_ws :: "nat \<Rightarrow> bool" where
  "is_ws c = (c \<in> {9, 10, 11, 12, 13, 32, 160, 5760, 8232, 8233, 8239, 8287, 12288, 65279}
      \<or> (8192 \<le> c \<and> c \<le> 8202))"

definition trim :: "jsstring \<Rightarrow> jsstring" where
  "trim s = rev (dropWhile is_ws (rev (dropWhile is_ws s)))"

subsection \<open>Plain objects used as dictionaries\<close>

text \<open>
  \<open>Record<string, V>\<close> values are plain objects. An object is modelled by its own
  properties, listed in the order in which \<open>Object.keys\<close>, \<open>Object.values\<close> and
  \<open>Object.entries\<close> enumerate them: keys that are array indices (canonical decimal
  numerals below \<open>2^32 - 1\<close>) first, in ascending numeric order, then every other key
  in the order of creation. Assigning to an existing property keeps its place.
  Property names found on \<open>Object.prototype\<close> are outside this model.
\<close>

type_synonym 'v obj = "(jsstring \<times> 'v) list"

definition digit :: "nat \<Rightarrow> bool" where
  "digit c = (48 \<le> c \<and> c \<le> 57)"

definition index_value :: "jsstring \<Rightarrow> nat" where
  "index_value s = foldl (\<lambda>a c. 10 * a + (c - 48)) 0 s"

definition is_array_index :: "jsstring \<Rightarrow> bool" where
  "is_array_index s =
     (case s of
        [] \<Rightarrow> False
      | c # cs \<Rightarrow> list_all digit s \<and> (c \<noteq> 48 \<or> cs = []) \<and> index_value s < 4294967295)"

definition obj_get :: "'v obj \<Rightarrow> jsstring \<Rightarrow> 'v option" where
  "obj_get ob k = map_of ob k"

definition obj_keys :: "'v obj \<Rightarrow> jsstring list" where
  "obj_keys ob = map fst ob"

definition obj_values :: "'v obj \<Rightarrow> 'v list" where
  "obj_values ob = map snd ob"

text \<open>Assignment to a property the object already has.\<close>

fun obj_assign :: "'v obj \<Rightarrow> jsstring \<Rightarrow> 'v \<Rightarrow> 'v obj" where
  "obj_assign [] k v = []"
| "obj_assign ((k', v') # ps) k v =
     (if k' = k then (k, v) # ps else (k', v') # obj_assign ps k v)"

text \<open>Creation of a new property: an array index goes to its numeric place, any other key to the end.\<close>

fun obj_create :: "'v obj \<Rightarrow> jsstring \<Rightarrow> 'v \<Rightarrow> 'v obj" where
  "obj_create [] k v = [(k, v)]"
| "obj_create ((k', v') # ps) k v =
     (if is_array_index k \<and> (is_array_index k' \<longrightarrow> index_value k < index_value k')
      then (k, v) # (k', v') # ps
      else (k', v') # obj_create ps k v)"

definition obj_set :: "'v obj \<Rightarrow> jsstring \<Rightarrow> 'v \<Rightarrow> 'v obj" where
  "obj_set ob k v = (if k \<in> set (obj_keys ob) then obj_assign ob k v else obj_create ob k v)"

definition obj_delete :: "'v obj \<Rightarrow> jsstring \<Rightarrow> 'v obj" where
  "obj_delete ob k = filter (\<lambda>p. fst p \<noteq> k) ob"

text \<open>
  The shape every object has: no key twice, array indices first and ascending.
\<close>

definition key_before :: "jsstring \<Rightarrow> jsstring \<Rightarrow> bool" where
  "key_before k k' =
     (if is_array_index k then (is_array_index k' \<longrightarrow> index_value k \<le> index_value k')
      else \<not> is_array_index k')"

definition wf_obj :: "'v obj \<Rightarrow> bool" where
  "wf_obj ob = (distinct (obj_keys ob) \<and> sorted_wrt key_before (obj_keys ob))"

section \<open>Data model (the interfaces of fetch.js)\<close>

text \<open>\<open>driveV3.Schema$File\<close>, restricted to the fields the listing requests.\<close>

record Schema_File =
  f_id :: "jsstring nullable"
  f_name :: "jsstring nullable"
  f_mimeType :: "jsstring nullable"
  f_modifiedTime :: "jsstring nullable"

text \<open>
  \<open>FileState.modifiedTime\<close> is declared a string, but it is assigned
  \<open>f.modifiedTime!\<close>, which the type assertion does not check.
\<close>

record FileState =
  modifiedTime :: "jsstring nullable"
  name :: jsstring
  mimeType :: "jsstring nullable"

record DirectoryState =
  files :: "FileState obj"

record State =
  dirs :: "DirectoryState obj"

type_synonym MediaMap = "jsstring list obj"

section \<open>The environment: Drive, file system, process\<close>

text \<open>
  A path is the list of the segments handed to \<open>path.join\<close>, starting at the
  working directory; the normalisation done by \<open>path.join\<close> is not modelled.
\<close>

type_synonym path = "jsstring list"

definition path_join :: "path \<Rightarrow> jsstring \<Rightarrow> path" where
  "path_join p s = p @ [s]"

datatype doc = StateDoc State | MapDoc MediaMap

text \<open>
  The calls the script makes to the outside: \<open>fs.mkdir\<close>, \<open>fs.open\<close> for writing,
  \<open>drive.files.get\<close> with the streaming of its body, \<open>fh.close\<close>, \<open>fs.unlink\<close>,
  \<open>drive.files.list\<close> (by the folder id printed into the query) and \<open>fs.writeFile\<close>.
\<close>

datatype call =
    Mkdir path
  | Open path
  | Get jsstring
  | Close path
  | Unlink path
  | ListFiles jsstring
  | WriteFile path doc

datatype error = MissingEnv string | IOError call | TypeError

datatype 'a res = Done 'a | Threw error

text \<open>
  The world decides which calls reject, what a listing returns, what the process
  environment and the state file hold, and how the runtime lowercases a string.
  Every function below threads the list of calls made so far.
\<close>

record world =
  fails :: "call \<Rightarrow> bool"
  remote :: "jsstring \<Rightarrow> Schema_File list nullable"
  penv :: "string \<Rightarrow> jsstring option"
  stateFile :: "State option"
  toLowerCase :: "jsstring \<Rightarrow> jsstring"

section \<open>Config\<close>

definition PUBLIC_DIR :: path where
  "PUBLIC_DIR = [lit ''public'']"

definition STATE_PATH :: path where
  "STATE_PATH = [lit ''.drive-sync.json'']"

definition DATA_DIR :: path where
  "DATA_DIR = [lit ''src/data'']"

definition IGNORED_FOLDERS :: "jsstring list" where
  "IGNORED_FOLDERS = [lit ''assets'', lit ''cursors'', lit ''private'']"

definition IGNORE_GOOGLE_MIMES :: "jsstring list" where
  "IGNORE_GOOGLE_MIMES = [lit ''application/vnd.google-apps.'']"

definition FOLDER_MIME :: jsstring where
  "FOLDER_MIME = lit ''application/vnd.google-apps.folder''"

definition ROOT_KEY :: jsstring where
  "ROOT_KEY = lit ''public-root''"

section \<open>Utility\<close>

definition env :: "world \<Rightarrow> string \<Rightarrow> jsstring res" where
  "env w n =
     (case penv w n of
        None \<Rightarrow> Threw (MissingEnv n)
      | Some v \<Rightarrow> if v = [] then Threw (MissingEnv n) else Done v)"

definition getDrive :: "world \<Rightarrow> unit res" where
  "getDrive w =
     (case env w ''GOOGLE_SA_CLIENT_EMAIL'' of
        Threw e \<Rightarrow> Threw e
      | Done email \<Rightarrow>
          (case env w ''GOOGLE_SA_PRIVATE_KEY'' of
             Threw e \<Rightarrow> Threw e
           | Done key \<Rightarrow> Done ()))"

text \<open>
  The character class of \<open>safeName\<close>: \<open>/ \ ? % * : | " < >\<close>; the replacement is
  the middle dot U+00B7.
\<close>

definition illegal :: "nat list" where
  "illegal = [47, 92, 63, 37, 42, 58, 124, 34, 60, 62]"

definition placeholder :: nat where
  "placeholder = 183"

definition safeName :: "jsstring \<Rightarrow> jsstring" where
  "safeName n = trim (map (\<lambda>c. if c \<in> set illegal then placeholder else c) n)"

definition loadState :: "world \<Rightarrow> State" where
  "loadState w = (case stateFile w of None \<Rightarrow> \<lparr>dirs = []\<rparr> | Some s \<Rightarrow> s)"

text \<open>\<open>fs.writeFile\<close> of a document.\<close>

definition writeFile :: "world \<Rightarrow> path \<Rightarrow> doc \<Rightarrow> call list \<Rightarrow> unit res \<times> call list" where
  "writeFile w p d tr =
     (if fails w (WriteFile p d) then (Threw (IOError (WriteFile p d)), tr @ [WriteFile p d])
      else (Done (), tr @ [WriteFile p d]))"

definition saveState :: "world \<Rightarrow> State \<Rightarrow> call list \<Rightarrow> unit res \<times> call list" where
  "saveState w state tr = writeFile w STATE_PATH (StateDoc state) tr"

text \<open>\<open>res.data.files ?? []\<close> of the listing of a folder.\<close>

definition listing :: "world \<Rightarrow> jsstring \<Rightarrow> Schema_File list" where
  "listing w q = (case remote w q of Val fs \<Rightarrow> fs | _ \<Rightarrow> [])"

definition listFolder :: "world \<Rightarrow> jsstring nullable \<Rightarrow> call list \<Rightarrow> Schema_File list res \<times> call list" where
  "listFolder w folderId tr =
     (let q = template folderId in
      if fails w (ListFiles q) then (Threw (IOError (ListFiles q)), tr @ [ListFiles q])
      else (Done (listing w q), tr @ [ListFiles q]))"

definition downloadBinary ::
  "world \<Rightarrow> Schema_File \<Rightarrow> path \<Rightarrow> call list \<Rightarrow> jsstring nullable res \<times> call list" where
  "downloadBinary w f outDir tr =
     (case (f_id f, f_name f) of
        (Val i, Val n) \<Rightarrow>
          if i = [] \<or> n = [] then (Done Undefined, tr)
          else
            let outPath = path_join outDir (safeName n) in
            if fails w (Open outPath) then (Threw (IOError (Open outPath)), tr @ [Open outPath])
            else if fails w (Close outPath)
              then (Threw (IOError (Close outPath)), tr @ [Open outPath, Get i, Close outPath])
            else if fails w (Get i)
              then (Threw (IOError (Get i)), tr @ [Open outPath, Get i, Close outPath])
            else (Done (Val (safeName n)), tr @ [Open outPath, Get i, Close outPath])
      | _ \<Rightarrow> (Done Undefined, tr))"

section \<open>Sync core\<close>

text \<open>\<open>IGNORE_GOOGLE_MIMES.some(m => mimeType?.startsWith(m))\<close> of lines 130 and 173.\<close>

definition isGoogleMime :: "jsstring nullable \<Rightarrow> bool" where
  "isGoogleMime mt =
     list_ex (\<lambda>m. case mt of Val t \<Rightarrow> prefix m t | _ \<Rightarrow> False) IGNORE_GOOGLE_MIMES"

text \<open>The test of line 132: no record for the id, or another \<open>modifiedTime\<close>.\<close>

definition changed :: "FileState obj \<Rightarrow> jsstring \<Rightarrow> Schema_File \<Rightarrow> bool" where
  "changed known i f =
     (case obj_get known i of
        None \<Rightarrow> True
      | Some r \<Rightarrow> modifiedTime r \<noteq> f_modifiedTime f)"

text \<open>The body of the first loop of \<open>syncFolder\<close> (lines 129 to 139), for one entry.\<close>

definition syncFile ::
  "world \<Rightarrow> path \<Rightarrow> Schema_File \<Rightarrow> FileState obj \<Rightarrow> call list \<Rightarrow> unit res \<times> FileState obj \<times> call list" where
  "syncFile w localPath f known tr =
     (case (f_id f, f_name f) of
        (Val i, Val n) \<Rightarrow>
          if i = [] \<or> n = [] then (Done (), known, tr)
          else if isGoogleMime (f_mimeType f) then (Done (), known, tr)
          else if changed known i f then
            (case downloadBinary w f localPath tr of
               (Threw e, tr') \<Rightarrow> (Threw e, known, tr')
             | (Done saved, tr') \<Rightarrow>
                 (Done (),
                  obj_set known i
                    \<lparr>modifiedTime = f_modifiedTime f,
                     name = (case saved of Val s \<Rightarrow> s | _ \<Rightarrow> safeName n),
                     mimeType = f_mimeType f\<rparr>,
                  tr'))
          else (Done (), known, tr)
      | _ \<Rightarrow> (Done (), known, tr))"

text \<open>
  The first loop (lines 128 to 140). Nothing catches an exception of \<open>downloadBinary\<close>:
  it leaves the loop, and \<open>syncFolder\<close>, at once.
\<close>

fun addUpdate ::
  "world \<Rightarrow> path \<Rightarrow> Schema_File list \<Rightarrow> FileState obj \<Rightarrow> call list \<Rightarrow> unit res \<times> FileState obj \<times> call list" where
  "addUpdate w localPath [] known tr = (Done (), known, tr)"
| "addUpdate w localPath (f # fs) known tr =
     (case syncFile w localPath f known tr of
        (Threw e, known', tr') \<Rightarrow> (Threw e, known', tr')
      | (Done u, known', tr') \<Rightarrow> addUpdate w localPath fs known' tr')"

text \<open>\<open>fs.unlink\<close> of line 147, before its \<open>.catch\<close>.\<close>

definition unlink :: "world \<Rightarrow> path \<Rightarrow> call list \<Rightarrow> unit res \<times> call list" where
  "unlink w p tr =
     (if fails w (Unlink p) then (Threw (IOError (Unlink p)), tr @ [Unlink p])
      else (Done (), tr @ [Unlink p]))"

text \<open>
  The body of the second loop (lines 144 to 149) for one key of the snapshot
  \<open>Object.keys(known)\<close>. Reading \<open>known[id].name\<close> of a missing property is a
  TypeError; the rejection of \<open>fs.unlink\<close> is swallowed by \<open>.catch(() => {})\<close>.
\<close>

definition removeMissing ::
  "world \<Rightarrow> path \<Rightarrow> jsstring nullable list \<Rightarrow> jsstring \<Rightarrow> FileState obj \<Rightarrow> call list
     \<Rightarrow> unit res \<times> FileState obj \<times> call list" where
  "removeMissing w localPath driveIds i known tr =
     (if Val i \<in> set driveIds then (Done (), known, tr)
      else
        (case obj_get known i of
           None \<Rightarrow> (Threw TypeError, known, tr)
         | Some r \<Rightarrow>
             (case unlink w (path_join localPath (name r)) tr of
                (Threw e, tr') \<Rightarrow> (Done (), obj_delete known i, tr')
              | (Done u, tr') \<Rightarrow> (Done (), obj_delete known i, tr'))))"

text \<open>The second loop (lines 143 to 150), over the snapshot of the keys.\<close>

fun cleanup ::
  "world \<Rightarrow> path \<Rightarrow> jsstring nullable list \<Rightarrow> jsstring list \<Rightarrow> FileState obj \<Rightarrow> call list
     \<Rightarrow> unit res \<times> FileState obj \<times> call list" where
  "cleanup w localPath driveIds [] known tr = (Done (), known, tr)"
| "cleanup w localPath driveIds (i # ids) known tr =
     (case removeMissing w localPath driveIds i known tr of
        (Threw e, known', tr') \<Rightarrow> (Threw e, known', tr')
      | (Done u, known', tr') \<Rightarrow> cleanup w localPath driveIds ids known' tr')"

text \<open>
  \<open>known\<close> is the object \<open>state.dirs[key].files\<close> itself, so every change to it is
  a change of the state; \<open>store\<close> writes the changed object back.
\<close>

definition store :: "State \<Rightarrow> jsstring \<Rightarrow> DirectoryState \<Rightarrow> FileState obj \<Rightarrow> State" where
  "store state key dir known = state\<lparr>dirs := obj_set (dirs state) key (dir\<lparr>files := known\<rparr>)\<rparr>"

text \<open>
  \<open>syncFolder\<close> (lines 114 to 151): \<open>fs.mkdir\<close>, the entry \<open>state.dirs[key]\<close> (created
  when missing), the set \<open>driveIds\<close> of the ids of all listing entries, then the two loops.
\<close>

definition syncFolder ::
  "world \<Rightarrow> Schema_File list \<Rightarrow> path \<Rightarrow> State \<Rightarrow> jsstring \<Rightarrow> call list \<Rightarrow> unit res \<times> State \<times> call list" where
  "syncFolder w fs localPath state key tr =
     (if fails w (Mkdir localPath)
      then (Threw (IOError (Mkdir localPath)), state, tr @ [Mkdir localPath])
      else
        let dir = (case obj_get (dirs state) key of None \<Rightarrow> \<lparr>files = []\<rparr> | Some d \<Rightarrow> d);
            driveIds = map f_id fs
        in
          (case addUpdate w localPath fs (files dir) (tr @ [Mkdir localPath]) of
             (Threw e, known, tr') \<Rightarrow> (Threw e, store state key dir known, tr')
           | (Done u, known, tr') \<Rightarrow>
               (case cleanup w localPath driveIds (obj_keys known) known tr' of
                  (r, known', tr'') \<Rightarrow> (r, store state key dir known', tr''))))"

section \<open>Main\<close>

text \<open>The test of lines 169 and 170 on a folder name.\<close>

definition ignoredFolder :: "world \<Rightarrow> jsstring \<Rightarrow> bool" where
  "ignoredFolder w n =
     (let nameLc = toLowerCase w n in list_ex (\<lambda>x. str_includes nameLc x) IGNORED_FOLDERS)"

text \<open>The body of the loop over the root listing (lines 166 to 175).\<close>

definition classify ::
  "world \<Rightarrow> jsstring nullable obj \<times> Schema_File list \<Rightarrow> Schema_File \<Rightarrow> jsstring nullable obj \<times> Schema_File list" where
  "classify w acc item =
     (case acc of (folders, rootFiles) \<Rightarrow>
        (case (f_name item, f_mimeType item) of
           (Val n, Val mt) \<Rightarrow>
             if n = [] \<or> mt = [] then (folders, rootFiles)
             else if mt = FOLDER_MIME then
               (if \<not> ignoredFolder w n then (obj_set folders n (f_id item), rootFiles)
                else (folders, rootFiles))
             else if \<not> isGoogleMime (Val mt) then (folders, rootFiles @ [item])
             else (folders, rootFiles)
         | _ \<Rightarrow> (folders, rootFiles)))"

definition partition_items :: "world \<Rightarrow> Schema_File list \<Rightarrow> jsstring nullable obj \<times> Schema_File list" where
  "partition_items w rootItems = foldl (classify w) ([], []) rootItems"

text \<open>The loop over \<open>Object.entries(folders)\<close> (lines 182 to 186).\<close>

fun syncFolders ::
  "world \<Rightarrow> (jsstring \<times> jsstring nullable) list \<Rightarrow> State \<Rightarrow> call list \<Rightarrow> unit res \<times> State \<times> call list" where
  "syncFolders w [] state tr = (Done (), state, tr)"
| "syncFolders w ((n, i) # rest) state tr =
     (case listFolder w i tr of
        (Threw e, tr') \<Rightarrow> (Threw e, state, tr')
      | (Done fs, tr') \<Rightarrow>
          (case syncFolder w fs (path_join PUBLIC_DIR n) state n tr' of
             (Threw e, state', tr'') \<Rightarrow> (Threw e, state', tr'')
           | (Done u, state', tr'') \<Rightarrow> syncFolders w rest state' tr''))"

text \<open>The media map of lines 195 to 203.\<close>

definition publicPath :: "jsstring \<Rightarrow> FileState \<Rightarrow> jsstring" where
  "publicPath folder f =
     (if folder = ROOT_KEY then lit ''/'' @ name f
      else lit ''/'' @ folder @ lit ''/'' @ name f)"

definition mediaMap :: "State \<Rightarrow> MediaMap" where
  "mediaMap state =
     foldl (\<lambda>m (folder, folderState).
              obj_set m folder (map (publicPath folder) (obj_values (files folderState))))
       [] (dirs state)"

text \<open>The end of \<open>main\<close>: save the state, then write the media map (lines 191 to 209).\<close>

definition finish :: "world \<Rightarrow> State \<Rightarrow> call list \<Rightarrow> unit res \<times> State \<times> call list" where
  "finish w state tr =
     (case saveState w state tr of
        (Threw e, tr4) \<Rightarrow> (Threw e, state, tr4)
      | (Done u, tr4) \<Rightarrow>
          (if fails w (Mkdir DATA_DIR)
           then (Threw (IOError (Mkdir DATA_DIR)), state, tr4 @ [Mkdir DATA_DIR])
           else
             (case writeFile w (path_join DATA_DIR (lit ''media-map.json''))
                     (MapDoc (mediaMap state)) (tr4 @ [Mkdir DATA_DIR]) of
                (r, tr5) \<Rightarrow> (r, state, tr5))))"

text \<open>
  \<open>main\<close> returns nothing; what it does is the list of its calls. The result holds
  also the state in memory when \<open>main\<close> ends, once \<open>loadState\<close> has run.
\<close>

definition main :: "world \<Rightarrow> unit res \<times> State option \<times> call list" where
  "main w =
     (case getDrive w of
        Threw e \<Rightarrow> (Threw e, None, [])
      | Done drive \<Rightarrow>
          (case env w ''GOOGLE_DRIVE_FOLDER_ID'' of
             Threw e \<Rightarrow> (Threw e, None, [])
           | Done folderId \<Rightarrow>
               (case listFolder w (Val folderId) [] of
                  (Threw e, tr1) \<Rightarrow> (Threw e, Some (loadState w), tr1)
                | (Done rootItems, tr1) \<Rightarrow>
                    (case syncFolders w (fst (partition_items w rootItems)) (loadState w) tr1 of
                       (Threw e, state2, tr2) \<Rightarrow> (Threw e, Some state2, tr2)
                     | (Done u, state2, tr2) \<Rightarrow>
                         (case syncFolder w (snd (partition_items w rootItems)) PUBLIC_DIR state2
                                 ROOT_KEY tr2 of
                            (Threw e, state3, tr3) \<Rightarrow> (Threw e, Some state3, tr3)
                          | (Done u, state3, tr3) \<Rightarrow>
                              (case finish w state3 tr3 of
                                 (r, state4, tr4) \<Rightarrow> (r, Some state4, tr4)))))))"

section \<open>Vocabulary of the properties\<close>

text \<open>The two \<open>continue\<close> tests of lines 129 and 130.\<close>

definition skipped :: "Schema_File \<Rightarrow> bool" where
  "skipped f = (falsy (f_id f) \<or> falsy (f_name f) \<or> isGoogleMime (f_mimeType f))"

text \<open>\<open>state.dirs[key].files\<close> as \<open>syncFolder\<close> sees it: empty when the key is new.\<close>

definition known_of :: "State \<Rightarrow> jsstring \<Rightarrow> FileState obj" where
  "known_of state key = (case obj_get (dirs state) key of None \<Rightarrow> [] | Some d \<Rightarrow> files d)"

text \<open>How often the content of file \<open>i\<close> was requested from Drive.\<close>

definition downloads :: "call list \<Rightarrow> jsstring \<Rightarrow> nat" where
  "downloads tr i = count_list tr (Get i)"

text \<open>The calls of a download, and the call of a removal.\<close>

fun fetch_call :: "call \<Rightarrow> bool" where
  "fetch_call (Open p) = True"
| "fetch_call (Get i) = True"
| "fetch_call (Close p) = True"
| "fetch_call c = False"

fun unlink_call :: "call \<Rightarrow> bool" where
  "unlink_call (Unlink p) = True"
| "unlink_call c = False"

text \<open>The directory entry \<open>syncFolder\<close> works on: a fresh one when the key is new.\<close>

definition dir_of :: "State \<Rightarrow> jsstring \<Rightarrow> DirectoryState" where
  "dir_of state key = (case obj_get (dirs state) key of None \<Rightarrow> \<lparr>files = []\<rparr> | Some d \<Rightarrow> d)"

text \<open>
  The property names every plain object inherits from \<open>Object.prototype\<close>. Reading
  \<open>ob[k]\<close> for such a name finds the inherited value when \<open>ob\<close> has no own property \<open>k\<close>
  (so \<open>state.dirs[key]\<close> is then truthy and has no \<open>files\<close>, and \<open>known[id]\<close> is truthy and
  has no \<open>modifiedTime\<close>), and assigning to \<open>__proto__\<close> creates no own property. The
  functions above read and write own properties only.
\<close>

definition PROTO_NAMES :: "jsstring list" where
  "PROTO_NAMES =
     [lit ''constructor'', lit ''__defineGetter__'', lit ''__defineSetter__'',
      lit ''hasOwnProperty'', lit ''__lookupGetter__'', lit ''__lookupSetter__'',
      lit ''isPrototypeOf'', lit ''propertyIsEnumerable'', lit ''toString'', lit ''valueOf'',
      lit ''__proto__'', lit ''toLocaleString'']"

definition inherited :: "jsstring \<Rightarrow> bool" where
  "inherited k = (k \<in> set PROTO_NAMES)"

text \<open>
  A run of \<open>syncFolder\<close> in which no read can find an inherited property: the key is an
  own property of \<open>state.dirs\<close> or none of these names, and no id of the listing is one of
  them. On such runs the functions above are the code.
\<close>

definition plain_run :: "State \<Rightarrow> jsstring \<Rightarrow> Schema_File list \<Rightarrow> bool" where
  "plain_run state key fs =
     ((key \<in> set (obj_keys (dirs state)) \<or> \<not> inherited key)
      \<and> (\<forall>f\<in>set fs. \<forall>i. f_id f = Val i \<longrightarrow> \<not> inherited i))"

section \<open>Concrete inputs\<close>

text \<open>A world in which no call fails, and two file records.\<close>

definition quiet :: world where
  "quiet = \<lparr>fails = (\<lambda>c. False), remote = (\<lambda>q. Undefined), penv = (\<lambda>n. None),
             stateFile = None, toLowerCase = (\<lambda>s. s)\<rparr>"

definition rec_a :: FileState where
  "rec_a = \<lparr>modifiedTime = Val (lit ''t1''), name = lit ''a.jpg'', mimeType = Val (lit ''image/jpeg'')\<rparr>"

definition rec_b :: FileState where
  "rec_b = \<lparr>modifiedTime = Val (lit ''t1''), name = lit ''b.png'', mimeType = Val (lit ''image/png'')\<rparr>"

text \<open>A folder key with its local directory, two listing entries, and a state that knows the first.\<close>

definition photos :: jsstring where
  "photos = lit ''Photos''"

definition photos_dir :: path where
  "photos_dir = path_join PUBLIC_DIR photos"

definition entry_a :: Schema_File where
  "entry_a = \<lparr>f_id = Val (lit ''a''), f_name = Val (lit ''a.jpg''),
               f_mimeType = Val (lit ''image/jpeg''), f_modifiedTime = Val (lit ''t1'')\<rparr>"

definition entry_b :: Schema_File where
  "entry_b = \<lparr>f_id = Val (lit ''b''), f_name = Val (lit ''b.png''),
               f_mimeType = Val (lit ''image/png''), f_modifiedTime = Val (lit ''t1'')\<rparr>"

definition state_a :: State where
  "state_a = \<lparr>dirs = [(photos, \<lparr>files = [(lit ''a'', rec_a)]\<rparr>)]\<rparr>"

text \<open>A world in which the content of file \<open>a\<close> cannot be fetched, and the empty state.\<close>

definition no_a :: world where
  "no_a = quiet\<lparr>fails := (\<lambda>c. c = Get (lit ''a''))\<rparr>"

definition state_empty :: State where
  "state_empty = \<lparr>dirs = []\<rparr>"

text \<open>A Google Docs document in a listing.\<close>

definition entry_doc :: Schema_File where
  "entry_doc = \<lparr>f_id = Val (lit ''d''), f_name = Val (lit ''notes''),
                 f_mimeType = Val (lit ''application/vnd.google-apps.document''),
                 f_modifiedTime = Val (lit ''t1'')\<rparr>"


text \<open>
  A complete world for \<open>main\<close>: the root folder \<open>root\<close> holds the folders \<open>Private\<close> and
  \<open>Photos\<close>, \<open>Photos\<close> holds one image, and the state file remembers a file of \<open>Private\<close>
  from an earlier run. Lowercasing is that of ASCII letters.
\<close>

definition ascii_lower :: "jsstring \<Rightarrow> jsstring" where
  "ascii_lower s = map (\<lambda>c. if 65 \<le> c \<and> c \<le> 90 then c + 32 else c) s"

definition folder_item :: "string \<Rightarrow> string \<Rightarrow> Schema_File" where
  "folder_item i n = \<lparr>f_id = Val (lit i), f_name = Val (lit n),
                       f_mimeType = Val FOLDER_MIME, f_modifiedTime = Val (lit ''t0'')\<rparr>"

definition state_private :: State where
  "state_private = \<lparr>dirs = [(lit ''Private'', \<lparr>files = [(lit ''s'', rec_b)]\<rparr>)]\<rparr>"

definition drive0 :: world where
  "drive0 =
     \<lparr>fails = (\<lambda>c. False),
      remote = (\<lambda>q. if q = lit ''root''
                     then Val [folder_item ''S'' ''Private'', folder_item ''P'' ''Photos'']
                   else if q = lit ''P'' then Val [entry_a]
                   else Undefined),
      penv = (\<lambda>n. if n = ''GOOGLE_SA_CLIENT_EMAIL'' then Some (lit ''sa@example.org'')
                   else if n = ''GOOGLE_SA_PRIVATE_KEY'' then Some (lit ''key'')
                   else if n = ''GOOGLE_DRIVE_FOLDER_ID'' then Some (lit ''root'')
                   else None),
      stateFile = Some state_private,
      toLowerCase = ascii_lower\<rparr>"

text \<open>A state that knows two files of \<open>Photos\<close>, and a world in which the second cannot be unlinked.\<close>

definition state_ab :: State where
  "state_ab = \<lparr>dirs = [(photos, \<lparr>files = [(lit ''a'', rec_a), (lit ''b'', rec_b)]\<rparr>)]\<rparr>"

definition no_unlink :: world where
  "no_unlink = quiet\<lparr>fails := (\<lambda>c. c = Unlink (path_join photos_dir (lit ''b.png'')))\<rparr>"

section \<open>Plain objects: lookup, order and shape\<close>

lemma obj_keys_Nil: "obj_keys [] = []"
  by (simp add: obj_keys_def)

lemma obj_keys_Cons: "obj_keys (p # ps) = fst p # obj_keys ps"
  by (simp add: obj_keys_def)

lemma obj_get_Nil: "obj_get [] k = None"
  by (simp add: obj_get_def)

lemma obj_get_Cons: "obj_get (p # ps) k = (if fst p = k then Some (snd p) else obj_get ps k)"
  by (cases p) (simp add: obj_get_def)

lemmas obj_simps = obj_keys_Nil obj_keys_Cons obj_get_Nil obj_get_Cons

lemma obj_keys_iff: "k \<in> set (obj_keys ob) \<longleftrightarrow> obj_get ob k \<noteq> None"
  by (induction ob) (auto simp: obj_simps)

lemma obj_keys_assign: "obj_keys (obj_assign ob k v) = obj_keys ob"
  by (induction ob) (auto simp: obj_simps)

lemma obj_get_assign:
  "obj_get (obj_assign ob k v) k' =
     (if k' = k \<and> k \<in> set (obj_keys ob) then Some v else obj_get ob k')"
  by (induction ob) (auto simp: obj_simps obj_keys_iff)

lemma set_obj_keys_create: "set (obj_keys (obj_create ob k v)) = insert k (set (obj_keys ob))"
proof (induction ob)
  case Nil
  show ?case by (simp add: obj_simps)
next
  case (Cons p ps)
  obtain k' v' where p: "p = (k', v')" by (cases p)
  show ?case
  proof (cases "is_array_index k \<and> (is_array_index k' \<longrightarrow> index_value k < index_value k')")
    case True
    then have "obj_create (p # ps) k v = (k, v) # p # ps" by (simp add: p)
    then show ?thesis by (simp add: obj_simps)
  next
    case False
    then have "obj_create (p # ps) k v = p # obj_create ps k v" by (auto simp: p)
    then show ?thesis using Cons.IH by (simp add: obj_simps insert_commute)
  qed
qed

lemma obj_get_create:
  "k \<notin> set (obj_keys ob) \<Longrightarrow>
     obj_get (obj_create ob k v) k' = (if k' = k then Some v else obj_get ob k')"
  by (induction ob) (auto simp: obj_simps)

lemma obj_get_set: "obj_get (obj_set ob k v) k' = (if k' = k then Some v else obj_get ob k')"
  by (simp add: obj_set_def obj_get_assign obj_get_create)

lemma set_obj_keys_set: "set (obj_keys (obj_set ob k v)) = insert k (set (obj_keys ob))"
  by (auto simp: obj_set_def obj_keys_assign set_obj_keys_create)

lemma obj_get_delete: "obj_get (obj_delete ob k) k' = (if k' = k then None else obj_get ob k')"
  by (induction ob) (auto simp: obj_simps obj_delete_def)

lemma obj_assign_same: "obj_get ob k = Some v \<Longrightarrow> obj_assign ob k v = ob"
  by (induction ob) (auto simp: obj_simps split: if_splits)

lemma obj_set_same: "obj_get ob k = Some v \<Longrightarrow> obj_set ob k v = ob"
  by (simp add: obj_set_def obj_assign_same obj_keys_iff)


lemma distinct_obj_create:
  "k \<notin> set (obj_keys ob) \<Longrightarrow> distinct (obj_keys ob) \<Longrightarrow> distinct (obj_keys (obj_create ob k v))"
  by (induction ob) (auto simp: obj_simps set_obj_keys_create)

lemma distinct_obj_set: "distinct (obj_keys ob) \<Longrightarrow> distinct (obj_keys (obj_set ob k v))"
  by (simp add: obj_set_def obj_keys_assign distinct_obj_create)

lemma distinct_obj_delete: "distinct (obj_keys ob) \<Longrightarrow> distinct (obj_keys (obj_delete ob k))"
  by (simp add: obj_keys_def obj_delete_def distinct_map_filter)




lemma wf_obj_delete: "wf_obj ob \<Longrightarrow> wf_obj (obj_delete ob k)"
  by (simp add: wf_obj_def distinct_obj_delete)
     (simp add: obj_keys_def obj_delete_def sorted_wrt_map sorted_wrt_filter)


section \<open>The first loop of syncFolder\<close>

lemma not_skipped:
  "\<not> skipped f \<Longrightarrow>
     \<exists>i n. f_id f = Val i \<and> f_name f = Val n \<and> i \<noteq> [] \<and> n \<noteq> [] \<and> \<not> isGoogleMime (f_mimeType f)"
  by (cases "f_id f"; cases "f_name f") (auto simp: skipped_def)

lemma syncFile_skipped: "skipped f \<Longrightarrow> syncFile w localPath f known tr = (Done (), known, tr)"
  by (auto simp: skipped_def syncFile_def split: nullable.splits)

lemma downloadBinary_cases:
  assumes "f_id f = Val i" "f_name f = Val n" "i \<noteq> []" "n \<noteq> []"
  shows "downloadBinary w f outDir tr =
           (Threw (IOError (Open (path_join outDir (safeName n)))),
            tr @ [Open (path_join outDir (safeName n))])
       \<or> (\<exists>r. downloadBinary w f outDir tr =
             (r, tr @ [Open (path_join outDir (safeName n)), Get i,
                       Close (path_join outDir (safeName n))])
           \<and> (r = Done (Val (safeName n)) \<or> (\<exists>e. r = Threw e)))"
  using assms by (simp add: downloadBinary_def Let_def)

lemma syncFile_not_skipped:
  assumes "f_id f = Val i" "f_name f = Val n" "\<not> skipped f"
  shows "syncFile w localPath f known tr =
           (if changed known i f then
              (case downloadBinary w f localPath tr of
                 (Threw e, tr') \<Rightarrow> (Threw e, known, tr')
               | (Done saved, tr') \<Rightarrow>
                   (Done (),
                    obj_set known i
                      \<lparr>modifiedTime = f_modifiedTime f, name = safeName n, mimeType = f_mimeType f\<rparr>,
                    tr'))
            else (Done (), known, tr))"
proof -
  from assms have ne: "i \<noteq> []" "n \<noteq> []" and mime: "\<not> isGoogleMime (f_mimeType f)"
    by (auto simp: skipped_def)
  have "downloadBinary w f localPath tr = (Done saved, tr') \<Longrightarrow> saved = Val (safeName n)"
    for saved tr'
    using downloadBinary_cases [OF assms(1,2) ne, of w localPath tr] by auto
  then show ?thesis
    using assms(1,2) ne mime
    by (auto simp: syncFile_def split: prod.splits res.splits)
qed

lemma syncFile_unchanged:
  assumes "syncFile w localPath f known tr = (r, known', tr')"
    and "obj_get known j = Some rec"
    and "f_id f = Val j \<Longrightarrow> skipped f \<or> f_modifiedTime f = modifiedTime rec"
  shows "obj_get known' j = Some rec \<and> downloads tr' j = downloads tr j"
proof (cases "skipped f")
  case True
  with assms(1,2) show ?thesis by (simp add: syncFile_skipped)
next
  case False
  then obtain i n where f: "f_id f = Val i" "f_name f = Val n" "i \<noteq> []" "n \<noteq> []"
    using not_skipped by blast
  show ?thesis
  proof (cases "i = j")
    case True
    with assms(2,3) f False have "\<not> changed known i f" by (simp add: changed_def)
    with assms(1,2) show ?thesis by (simp add: syncFile_not_skipped [OF f(1,2) False])
  next
    case False
    note ij = this
    show ?thesis
    proof (cases "changed known i f")
      case True
      from downloadBinary_cases [OF f, of w localPath tr] assms(1,2) True ij
      show ?thesis
        by (auto simp: syncFile_not_skipped [OF f(1,2) \<open>\<not> skipped f\<close>] obj_get_set downloads_def)
    next
      case False
      with assms(1,2) show ?thesis by (simp add: syncFile_not_skipped [OF f(1,2) \<open>\<not> skipped f\<close>])
    qed
  qed
qed

lemma addUpdate_unchanged:
  assumes "addUpdate w localPath fs known tr = (r, known', tr')"
    and "obj_get known j = Some rec"
    and "\<forall>f\<in>set fs. f_id f = Val j \<longrightarrow> skipped f \<or> f_modifiedTime f = modifiedTime rec"
  shows "obj_get known' j = Some rec \<and> downloads tr' j = downloads tr j"
  using assms
proof (induction fs arbitrary: known tr)
  case Nil
  then show ?case by simp
next
  case (Cons f fs)
  obtain r1 k1 t1 where step: "syncFile w localPath f known tr = (r1, k1, t1)"
    by (cases "syncFile w localPath f known tr")
  have keep: "obj_get k1 j = Some rec \<and> downloads t1 j = downloads tr j"
    using syncFile_unchanged [OF step Cons.prems(2)] Cons.prems(3) by simp
  show ?case
  proof (cases r1)
    case (Threw e)
    with step Cons.prems(1) keep show ?thesis by simp
  next
    case (Done u)
    with step Cons.prems(1) have "addUpdate w localPath fs k1 t1 = (r, known', tr')" by simp
    from Cons.IH [OF this] keep Cons.prems(3) show ?thesis by simp
  qed
qed

section \<open>The second loop of syncFolder\<close>

lemma removeMissing_listed:
  "Val i \<in> set driveIds \<Longrightarrow> removeMissing w localPath driveIds i known tr = (Done (), known, tr)"
  by (simp add: removeMissing_def)

lemma removeMissing_unlisted:
  "Val i \<notin> set driveIds \<Longrightarrow>
     removeMissing w localPath driveIds i known tr =
       (case obj_get known i of
          None \<Rightarrow> (Threw TypeError, known, tr)
        | Some r \<Rightarrow>
            (Done (), obj_delete known i, tr @ [Unlink (path_join localPath (name r))]))"
  by (simp add: removeMissing_def unlink_def split: option.splits)

lemma removeMissing_keep:
  assumes "removeMissing w localPath driveIds i known tr = (r, known', tr')"
    and "Val j \<in> set driveIds"
  shows "obj_get known' j = obj_get known j"
  using assms
  by (cases "i = j")
     (auto simp: removeMissing_def unlink_def obj_get_delete split: if_splits option.splits)

lemma removeMissing_downloads:
  assumes "removeMissing w localPath driveIds i known tr = (r, known', tr')"
  shows "downloads tr' j = downloads tr j"
  using assms
  by (auto simp: removeMissing_def unlink_def downloads_def split: if_splits option.splits)

lemma cleanup_keep:
  assumes "cleanup w localPath driveIds ids known tr = (r, known', tr')"
    and "Val j \<in> set driveIds"
  shows "obj_get known' j = obj_get known j"
  using assms
proof (induction ids arbitrary: known tr)
  case Nil
  then show ?case by simp
next
  case (Cons i ids)
  obtain r1 k1 t1 where step: "removeMissing w localPath driveIds i known tr = (r1, k1, t1)"
    by (cases "removeMissing w localPath driveIds i known tr")
  have keep: "obj_get k1 j = obj_get known j"
    using removeMissing_keep [OF step Cons.prems(2)] .
  show ?case
  proof (cases r1)
    case (Threw e)
    with step Cons.prems(1) keep show ?thesis by simp
  next
    case (Done u)
    with step Cons.prems(1) have "cleanup w localPath driveIds ids k1 t1 = (r, known', tr')" by simp
    from Cons.IH [OF this Cons.prems(2)] keep show ?thesis by simp
  qed
qed

lemma cleanup_downloads:
  assumes "cleanup w localPath driveIds ids known tr = (r, known', tr')"
  shows "downloads tr' j = downloads tr j"
  using assms
proof (induction ids arbitrary: known tr)
  case Nil
  then show ?case by simp
next
  case (Cons i ids)
  obtain r1 k1 t1 where step: "removeMissing w localPath driveIds i known tr = (r1, k1, t1)"
    by (cases "removeMissing w localPath driveIds i known tr")
  have keep: "downloads t1 j = downloads tr j"
    using removeMissing_downloads [OF step] .
  show ?case
  proof (cases r1)
    case (Threw e)
    with step Cons.prems(1) keep show ?thesis by simp
  next
    case (Done u)
    with step Cons.prems(1) have "cleanup w localPath driveIds ids k1 t1 = (r, known', tr')" by simp
    from Cons.IH [OF this] keep show ?thesis by simp
  qed
qed

lemma cleanup_noop:
  "\<forall>i\<in>set ids. Val i \<in> set driveIds \<Longrightarrow>
     cleanup w localPath driveIds ids known tr = (Done (), known, tr)"
  by (induction ids) (simp_all add: removeMissing_listed)

lemma cleanup_Done:
  assumes "cleanup w localPath driveIds ids known tr = (Done u, known', tr')"
  shows "known' = filter (\<lambda>p. fst p \<notin> set ids \<or> Val (fst p) \<in> set driveIds) known"
  using assms
proof (induction ids arbitrary: known tr)
  case Nil
  then show ?case by simp
next
  case (Cons i ids)
  show ?case
  proof (cases "Val i \<in> set driveIds")
    case True
    with Cons.prems have "cleanup w localPath driveIds ids known tr = (Done u, known', tr')"
      by (simp add: removeMissing_listed)
    from Cons.IH [OF this] True show ?thesis
      by (auto intro: filter_cong)
  next
    case False
    have "\<exists>t1. cleanup w localPath driveIds ids (obj_delete known i) t1 = (Done u, known', tr')"
    proof (cases "obj_get known i")
      case None
      with Cons.prems False show ?thesis by (simp add: removeMissing_unlisted)
    next
      case (Some rec)
      with Cons.prems False show ?thesis by (auto simp: removeMissing_unlisted)
    qed
    then obtain t1 where
      "cleanup w localPath driveIds ids (obj_delete known i) t1 = (Done u, known', tr')" ..
    from Cons.IH [OF this] False show ?thesis
      by (auto simp: obj_delete_def intro: filter_cong)
  qed
qed

lemma cleanup_entries:
  assumes "distinct (map fst ps)"
    and "\<forall>p\<in>set ps. obj_get known (fst p) = Some (snd p)"
  shows "cleanup w localPath driveIds (map fst ps) known tr =
           (Done (),
            filter (\<lambda>p. fst p \<notin> fst ` set ps \<or> Val (fst p) \<in> set driveIds) known,
            tr @ map (\<lambda>p. Unlink (path_join localPath (name (snd p))))
                   (filter (\<lambda>p. Val (fst p) \<notin> set driveIds) ps))"
  using assms
proof (induction ps arbitrary: known tr)
  case Nil
  then show ?case by simp
next
  case (Cons p ps)
  obtain i rec where p: "p = (i, rec)" by (cases p)
  from Cons.prems have dist: "distinct (map fst ps)" and fresh: "i \<notin> fst ` set ps"
    and here: "obj_get known i = Some rec"
    and rest: "\<forall>q\<in>set ps. obj_get known (fst q) = Some (snd q)"
    by (auto simp: p)
  show ?case
  proof (cases "Val i \<in> set driveIds")
    case True
    then have "cleanup w localPath driveIds (map fst (p # ps)) known tr =
        cleanup w localPath driveIds (map fst ps) known tr"
      by (simp add: p removeMissing_listed)
    also note Cons.IH [OF dist rest]
    finally show ?thesis using True by (auto simp: p intro: filter_cong)
  next
    case False
    have rest': "\<forall>q\<in>set ps. obj_get (obj_delete known i) (fst q) = Some (snd q)"
      using rest fresh by (auto simp: obj_get_delete)
    have "cleanup w localPath driveIds (map fst (p # ps)) known tr =
        cleanup w localPath driveIds (map fst ps) (obj_delete known i)
          (tr @ [Unlink (path_join localPath (name rec))])"
      using False here by (simp add: p removeMissing_unlisted)
    also note Cons.IH [OF dist rest']
    finally show ?thesis using False by (auto simp: p obj_delete_def intro: filter_cong)
  qed
qed

lemma obj_get_entry: "distinct (obj_keys ob) \<Longrightarrow> p \<in> set ob \<Longrightarrow> obj_get ob (fst p) = Some (snd p)"
  by (cases p) (simp add: obj_get_def obj_keys_def)

section \<open>The naming sanitizer\<close>

lemma rev_drop_take: "x = rev (dropWhile P (rev x)) @ rev (takeWhile P (rev x))"
  by (metis rev_append rev_rev_ident takeWhile_dropWhile_id)

lemma trim_split:
  "\<exists>pre post. s = pre @ trim s @ post \<and> (\<forall>c\<in>set pre. is_ws c) \<and> (\<forall>c\<in>set post. is_ws c)"
proof -
  define t where "t = dropWhile is_ws s"
  have s: "s = takeWhile is_ws s @ t" by (simp add: t_def)
  have t: "t = trim s @ rev (takeWhile is_ws (rev t))"
    unfolding trim_def t_def by (rule rev_drop_take)
  have "s = takeWhile is_ws s @ trim s @ rev (takeWhile is_ws (rev t))"
    using s t by simp
  moreover have "\<forall>c\<in>set (takeWhile is_ws s). is_ws c"
    by (auto dest: set_takeWhileD)
  moreover have "\<forall>c\<in>set (rev (takeWhile is_ws (rev t))). is_ws c"
    by (auto dest: set_takeWhileD)
  ultimately show ?thesis by blast
qed

lemma trim_ends:
  assumes "trim s \<noteq> []"
  shows "\<not> is_ws (hd (trim s)) \<and> \<not> is_ws (last (trim s))"
proof -
  define t where "t = dropWhile is_ws s"
  define u where "u = dropWhile is_ws (rev t)"
  have tr: "trim s = rev u" by (simp add: trim_def t_def u_def)
  with assms have u: "u \<noteq> []" by simp
  then have "\<not> is_ws (hd u)" unfolding u_def by (rule hd_dropWhile)
  then have l: "\<not> is_ws (last (trim s))" using u by (simp add: tr last_rev)
  have t: "t = trim s @ rev (takeWhile is_ws (rev t))"
    unfolding trim_def t_def by (rule rev_drop_take)
  with assms have "t \<noteq> []" by auto
  then have "\<not> is_ws (hd t)" unfolding t_def by (rule hd_dropWhile)
  moreover have "hd t = hd (trim s)" using t assms by (metis hd_append2)
  ultimately show ?thesis using l by simp
qed

lemma set_trim: "set (trim s) \<subseteq> set s"
proof -
  have "set (trim s) \<subseteq> set (dropWhile is_ws s)"
    by (auto simp: trim_def dest: set_dropWhileD)
  then show ?thesis by (auto dest: set_dropWhileD)
qed

lemma placeholder_legal: "placeholder \<notin> set illegal"
  by (simp add: placeholder_def illegal_def)

text \<open>
  C9. \<open>safeName\<close> is a function of the name alone. It maps every code unit of the
  character class \<open>/ \ ? % * : | " < >\<close> to the one placeholder U+00B7, leaves every
  other code unit as it is, and then strips the white space around the result: what
  is cut off on either side is white space only, the result neither starts nor ends
  with white space, and no code unit of the class is left in it. The name
  \<open>a/b:c*d.png\<close> becomes \<open>a\<cdot>b\<cdot>c\<cdot>d.png\<close>.
\<close>

theorem safeName_replaces_and_trims:
  "(\<exists>pre post.
      map (\<lambda>c. if c \<in> set illegal then placeholder else c) n = pre @ safeName n @ post
      \<and> (\<forall>c\<in>set pre. is_ws c) \<and> (\<forall>c\<in>set post. is_ws c))
   \<and> (safeName n \<noteq> [] \<longrightarrow> \<not> is_ws (hd (safeName n)) \<and> \<not> is_ws (last (safeName n)))
   \<and> (\<forall>c\<in>set (safeName n). c \<notin> set illegal)
   \<and> safeName (lit ''a/b:c*d.png'')
       = lit ''a'' @ [placeholder] @ lit ''b'' @ [placeholder] @ lit ''c'' @ [placeholder] @ lit ''d.png''"
proof -
  let ?m = "map (\<lambda>c. if c \<in> set illegal then placeholder else c) n"
  have sn: "safeName n = trim ?m" by (simp add: safeName_def)
  have a: "\<exists>pre post. ?m = pre @ safeName n @ post
      \<and> (\<forall>c\<in>set pre. is_ws c) \<and> (\<forall>c\<in>set post. is_ws c)"
    unfolding sn by (rule trim_split)
  have b: "safeName n \<noteq> [] \<longrightarrow> \<not> is_ws (hd (safeName n)) \<and> \<not> is_ws (last (safeName n))"
    unfolding sn using trim_ends by blast
  have "\<forall>c\<in>set ?m. c \<notin> set illegal"
    using placeholder_legal by auto
  then have c: "\<forall>c\<in>set (safeName n). c \<notin> set illegal"
    unfolding sn using set_trim by blast
  have d: "safeName (lit ''a/b:c*d.png'')
       = lit ''a'' @ [placeholder] @ lit ''b'' @ [placeholder] @ lit ''c'' @ [placeholder] @ lit ''d.png''"
    by (simp add: safeName_def lit_def trim_def illegal_def placeholder_def is_ws_def)
  from a b c d show ?thesis by blast
qed

theorem safeName_replaces_and_trims_witness:
  "safeName (lit '' a/b '') = lit ''a'' @ [placeholder] @ lit ''b''
   \<and> safeName (lit '' a/b '') \<noteq> []
   \<and> \<not> is_ws (hd (safeName (lit '' a/b ''))) \<and> \<not> is_ws (last (safeName (lit '' a/b '')))
   \<and> set (safeName (lit '' a/b '')) \<inter> set illegal = {}"
proof -
  have v: "safeName (lit '' a/b '') = lit ''a'' @ [placeholder] @ lit ''b''"
    by (simp add: safeName_def lit_def trim_def illegal_def placeholder_def is_ws_def)
  then have ne: "safeName (lit '' a/b '') \<noteq> []" by (simp add: lit_def)
  from safeName_replaces_and_trims [of "lit '' a/b ''"] v ne show ?thesis by blast
qed

section \<open>The deletion pass\<close>

lemma obj_get_filter_key:
  "obj_get (filter (\<lambda>p. Q (fst p)) ob) i = (if Q i then obj_get ob i else None)"
  by (induction ob) (auto simp: obj_simps)

lemma obj_get_mem: "obj_get ob i = Some v \<Longrightarrow> (i, v) \<in> set ob"
  by (simp add: obj_get_def map_of_SomeD)

text \<open>
  The second loop, run over the keys of an object \<open>known\<close>, always completes: it keeps
  exactly the records whose id is in \<open>driveIds\<close>, and for every other record it calls
  \<open>fs.unlink\<close> on \<open>localPath/name\<close> and removes the record, whether or not \<open>fs.unlink\<close> fails.
\<close>

lemma cleanup_result:
  assumes "distinct (obj_keys known)"
  shows "\<exists>known' tr'.
      cleanup w localPath driveIds (obj_keys known) known tr = (Done (), known', tr')
    \<and> known' = filter (\<lambda>p. Val (fst p) \<in> set driveIds) known
    \<and> tr' = tr @ map (\<lambda>p. Unlink (path_join localPath (name (snd p))))
                    (filter (\<lambda>p. Val (fst p) \<notin> set driveIds) known)
    \<and> (\<forall>i rec. obj_get known i = Some rec \<longrightarrow> Val i \<notin> set driveIds \<longrightarrow>
          Unlink (path_join localPath (name rec)) \<in> set tr' \<and> obj_get known' i = None)
    \<and> (\<forall>i. Val i \<in> set driveIds \<longrightarrow> obj_get known' i = obj_get known i)"
proof -
  let ?keep = "filter (\<lambda>p. Val (fst p) \<in> set driveIds) known"
  let ?gone = "filter (\<lambda>p. Val (fst p) \<notin> set driveIds) known"
  let ?tr = "tr @ map (\<lambda>p. Unlink (path_join localPath (name (snd p)))) ?gone"
  have d: "distinct (map fst known)" using assms by (simp add: obj_keys_def)
  have all: "\<forall>p\<in>set known. obj_get known (fst p) = Some (snd p)"
    using assms obj_get_entry by blast
  have "filter (\<lambda>p. fst p \<notin> fst ` set known \<or> Val (fst p) \<in> set driveIds) known = ?keep"
    by (rule filter_cong) auto
  with cleanup_entries [OF d all, of w localPath driveIds tr]
  have run: "cleanup w localPath driveIds (obj_keys known) known tr = (Done (), ?keep, ?tr)"
    by (simp add: obj_keys_def)
  have gone: "Unlink (path_join localPath (name rec)) \<in> set ?tr \<and> obj_get ?keep i = None"
    if "obj_get known i = Some rec" "Val i \<notin> set driveIds" for i rec
  proof -
    from that have "(i, rec) \<in> set ?gone" by (simp add: obj_get_mem)
    then have "Unlink (path_join localPath (name (snd (i, rec)))) \<in>
        (\<lambda>p. Unlink (path_join localPath (name (snd p)))) ` set ?gone"
      by (rule imageI)
    then have "Unlink (path_join localPath (name rec)) \<in> set ?tr" by simp
    moreover have "obj_get ?keep i = None"
      using that(2) obj_get_filter_key [of "\<lambda>k. Val k \<in> set driveIds" known i] by simp
    ultimately show ?thesis by simp
  qed
  have kept: "obj_get ?keep i = obj_get known i" if "Val i \<in> set driveIds" for i
    using that obj_get_filter_key [of "\<lambda>k. Val k \<in> set driveIds" known i] by simp
  from run gone kept show ?thesis by blast
qed

section \<open>syncFolder as a whole\<close>

lemma known_of_dir_of: "known_of state key = files (dir_of state key)"
  by (simp add: known_of_def dir_of_def split: option.splits)

lemma known_of_store: "known_of (store state key dir known) key = known"
  by (simp add: known_of_def store_def obj_get_set)

lemma dirs_store_other:
  "n \<noteq> key \<Longrightarrow> obj_get (dirs (store state key dir known)) n = obj_get (dirs state) n"
  by (simp add: store_def obj_get_set)

lemma store_same: "store state key (dir_of state key) (known_of state key) =
    (case obj_get (dirs state) key of
       None \<Rightarrow> state\<lparr>dirs := obj_set (dirs state) key \<lparr>files = []\<rparr>\<rparr>
     | Some d \<Rightarrow> state)"
  by (simp add: store_def known_of_def dir_of_def obj_set_same split: option.splits)

lemma syncFolder_mkdir_fails:
  "fails w (Mkdir localPath) \<Longrightarrow>
     syncFolder w fs localPath state key tr =
       (Threw (IOError (Mkdir localPath)), state, tr @ [Mkdir localPath])"
  by (simp add: syncFolder_def)

lemma syncFolder_threw:
  assumes "\<not> fails w (Mkdir localPath)"
    and "addUpdate w localPath fs (known_of state key) (tr @ [Mkdir localPath]) = (Threw e, k1, t1)"
  shows "syncFolder w fs localPath state key tr = (Threw e, store state key (dir_of state key) k1, t1)"
  using assms by (simp add: syncFolder_def known_of_dir_of dir_of_def Let_def)

lemma syncFolder_done:
  assumes "\<not> fails w (Mkdir localPath)"
    and "addUpdate w localPath fs (known_of state key) (tr @ [Mkdir localPath]) = (Done u, k1, t1)"
    and "cleanup w localPath (map f_id fs) (obj_keys k1) k1 t1 = (r, k2, t2)"
  shows "syncFolder w fs localPath state key tr = (r, store state key (dir_of state key) k2, t2)"
  using assms by (simp add: syncFolder_def known_of_dir_of dir_of_def Let_def)

lemma syncFolder_cases:
  assumes "syncFolder w fs localPath state key tr = (r, state', tr')"
  obtains (mkdir) "fails w (Mkdir localPath)" "r = Threw (IOError (Mkdir localPath))"
      "state' = state" "tr' = tr @ [Mkdir localPath]"
  | (aborted) e k1 where "\<not> fails w (Mkdir localPath)"
      "addUpdate w localPath fs (known_of state key) (tr @ [Mkdir localPath]) = (Threw e, k1, tr')"
      "r = Threw e" "state' = store state key (dir_of state key) k1"
  | (completed) k1 t1 k2 where "\<not> fails w (Mkdir localPath)"
      "addUpdate w localPath fs (known_of state key) (tr @ [Mkdir localPath]) = (Done (), k1, t1)"
      "cleanup w localPath (map f_id fs) (obj_keys k1) k1 t1 = (r, k2, tr')"
      "state' = store state key (dir_of state key) k2"
proof (cases "fails w (Mkdir localPath)")
  case True
  with assms mkdir show ?thesis by (simp add: syncFolder_mkdir_fails)
next
  case False
  obtain r1 k1 t1 where au:
    "addUpdate w localPath fs (known_of state key) (tr @ [Mkdir localPath]) = (r1, k1, t1)"
    by (cases "addUpdate w localPath fs (known_of state key) (tr @ [Mkdir localPath])")
  show ?thesis
  proof (cases r1)
    case (Threw e)
    with au have au': "addUpdate w localPath fs (known_of state key) (tr @ [Mkdir localPath]) = (Threw e, k1, t1)"
      by simp
    from syncFolder_threw [OF False au'] assms
    have eqs: "r = Threw e" "state' = store state key (dir_of state key) k1" "tr' = t1"
      by simp_all
    from au' eqs(3) have "addUpdate w localPath fs (known_of state key) (tr @ [Mkdir localPath]) = (Threw e, k1, tr')"
      by simp
    then show ?thesis using eqs(1,2) by (rule aborted [OF False])
  next
    case (Done u)
    obtain r2 k2 t2 where cl: "cleanup w localPath (map f_id fs) (obj_keys k1) k1 t1 = (r2, k2, t2)"
      by (cases "cleanup w localPath (map f_id fs) (obj_keys k1) k1 t1")
    from Done au have au': "addUpdate w localPath fs (known_of state key) (tr @ [Mkdir localPath]) = (Done (), k1, t1)"
      by simp
    from syncFolder_done [OF False au' cl] assms
    have eqs: "r = r2" "state' = store state key (dir_of state key) k2" "tr' = t2"
      by simp_all
    from cl eqs(1,3) have "cleanup w localPath (map f_id fs) (obj_keys k1) k1 t1 = (r, k2, tr')"
      by simp
    then show ?thesis using eqs(2) by (rule completed [OF False au'])
  qed
qed

lemma downloads_snoc_mkdir: "downloads (tr @ [Mkdir p]) j = downloads tr j"
  by (simp add: downloads_def)

lemma syncFolder_unchanged:
  assumes run: "syncFolder w fs localPath state key tr = (r, state', tr')"
    and rec: "obj_get (known_of state key) j = Some rec"
    and listed: "Val j \<in> set (map f_id fs)"
    and same: "\<forall>f\<in>set fs. f_id f = Val j \<longrightarrow> skipped f \<or> f_modifiedTime f = modifiedTime rec"
  shows "obj_get (known_of state' key) j = Some rec \<and> downloads tr' j = downloads tr j"
  using run
proof (cases rule: syncFolder_cases)
  case mkdir
  with rec show ?thesis by (simp add: downloads_snoc_mkdir)
next
  case (aborted e k1)
  from addUpdate_unchanged [OF aborted(2) rec same] aborted(4)
  show ?thesis by (simp add: known_of_store downloads_snoc_mkdir)
next
  case (completed k1 t1 k2)
  from addUpdate_unchanged [OF completed(2) rec same]
  have a: "obj_get k1 j = Some rec" "downloads t1 j = downloads tr j"
    by (simp_all add: downloads_snoc_mkdir)
  from cleanup_keep [OF completed(3) listed] cleanup_downloads [OF completed(3), of j] a completed(4)
  show ?thesis by (simp add: known_of_store)
qed

section \<open>The media map\<close>

lemma addUpdate_drop_unchanged:
  assumes "obj_get known j = Some rec"
    and "\<forall>f\<in>set fs. f_id f = Val j \<longrightarrow> skipped f \<or> f_modifiedTime f = modifiedTime rec"
  shows "addUpdate w localPath fs known tr =
         addUpdate w localPath (filter (\<lambda>f. f_id f \<noteq> Val j) fs) known tr"
  using assms
proof (induction fs arbitrary: known tr)
  case Nil
  then show ?case by simp
next
  case (Cons f fs)
  show ?case
  proof (cases "f_id f = Val j")
    case True
    have "syncFile w localPath f known tr = (Done (), known, tr)"
    proof (cases "skipped f")
      case True
      then show ?thesis by (rule syncFile_skipped)
    next
      case False
      then obtain n where n: "f_name f = Val n" using not_skipped by blast
      from False True Cons.prems have "\<not> changed known j f" by (simp add: changed_def)
      then show ?thesis by (simp add: syncFile_not_skipped [OF True n False])
    qed
    with True Cons show ?thesis by simp
  next
    case False
    obtain r1 k1 t1 where step: "syncFile w localPath f known tr = (r1, k1, t1)"
      by (cases "syncFile w localPath f known tr")
    have keep: "obj_get k1 j = Some rec"
      using syncFile_unchanged [OF step Cons.prems(1)] False by simp
    show ?thesis
    proof (cases r1)
      case (Threw e)
      with step False show ?thesis by simp
    next
      case (Done u)
      with step False Cons.IH [OF keep] Cons.prems(2) show ?thesis by simp
    qed
  qed
qed







section \<open>Entries that need no download\<close>

lemma eval_key_a: "obj_get (known_of state_a photos) (lit ''a'') = Some rec_a"
  by (simp add: known_of_def state_a_def obj_simps)

text \<open>
  C4. Let a listing entry have an id for which the state holds a record with the same
  \<open>modifiedTime\<close>, and let every listing entry of that id carry this \<open>modifiedTime\<close> (ids
  are unique within a listing). Then, however \<open>syncFolder\<close> ends, the record is
  exactly what it was, the content of that id was not requested, and the first loop
  makes the calls and changes it would make without the entries of that id. The
  entry's name plays no part: after a rename the record keeps its old local name.
\<close>

theorem unchanged_entry_is_left_alone:
  assumes "syncFolder w fs localPath state key tr = (r, state', tr')"
    and "f \<in> set fs" and "f_id f = Val i"
    and "obj_get (known_of state key) i = Some rec"
    and "modifiedTime rec = f_modifiedTime f"
    and "\<forall>g\<in>set fs. f_id g = Val i \<longrightarrow> f_modifiedTime g = f_modifiedTime f"
  shows "obj_get (known_of state' key) i = Some rec
    \<and> downloads tr' i = downloads tr i
    \<and> addUpdate w localPath fs (known_of state key) t =
        addUpdate w localPath (filter (\<lambda>g. f_id g \<noteq> Val i) fs) (known_of state key) t"
proof -
  from assms(2,3) have listed: "Val i \<in> set (map f_id fs)" by force
  from assms(5,6) have same:
    "\<forall>g\<in>set fs. f_id g = Val i \<longrightarrow> skipped g \<or> f_modifiedTime g = modifiedTime rec"
    by simp
  from syncFolder_unchanged [OF assms(1,4) listed same]
    addUpdate_drop_unchanged [OF assms(4) same, of w localPath t]
  show ?thesis by simp
qed

theorem unchanged_entry_is_left_alone_witness:
  "obj_get (known_of (fst (snd (syncFolder quiet [entry_a\<lparr>f_name := Val (lit ''z.jpg'')\<rparr>]
        photos_dir state_a photos []))) photos) (lit ''a'') = Some rec_a
   \<and> downloads (snd (snd (syncFolder quiet [entry_a\<lparr>f_name := Val (lit ''z.jpg'')\<rparr>]
        photos_dir state_a photos []))) (lit ''a'') = 0
   \<and> safeName (lit ''z.jpg'') \<noteq> name rec_a"
proof -
  let ?f = "entry_a\<lparr>f_name := Val (lit ''z.jpg'')\<rparr>"
  let ?run = "syncFolder quiet [?f] photos_dir state_a photos []"
  have run: "?run = (fst ?run, fst (snd ?run), snd (snd ?run))" by simp
  have mem: "?f \<in> set [?f]" by simp
  have fid: "f_id ?f = Val (lit ''a'')" by (simp add: entry_a_def)
  have mt: "modifiedTime rec_a = f_modifiedTime ?f" by (simp add: rec_a_def entry_a_def)
  have uniq: "\<forall>g\<in>set [?f]. f_id g = Val (lit ''a'') \<longrightarrow> f_modifiedTime g = f_modifiedTime ?f"
    by simp
  have renamed: "safeName (lit ''z.jpg'') \<noteq> name rec_a"
    by (simp add: safeName_def lit_def trim_def illegal_def is_ws_def rec_a_def)
  from unchanged_entry_is_left_alone [OF run mem fid eval_key_a mt uniq] renamed
  show ?thesis by (simp add: downloads_def)
qed



section \<open>Entries that are new or modified\<close>

lemma syncFile_other:
  assumes "syncFile w localPath f known tr = (r, known', tr')" and "f_id f \<noteq> Val j"
  shows "obj_get known' j = obj_get known j \<and> downloads tr' j = downloads tr j"
proof (cases "skipped f")
  case True
  with assms(1) show ?thesis by (simp add: syncFile_skipped)
next
  case False
  then obtain i n where f: "f_id f = Val i" "f_name f = Val n" "i \<noteq> []" "n \<noteq> []"
    using not_skipped by blast
  with assms(2) have ij: "i \<noteq> j" by simp
  show ?thesis
  proof (cases "changed known i f")
    case True
    from downloadBinary_cases [OF f, of w localPath tr] assms(1) True ij
    show ?thesis
      by (auto simp: syncFile_not_skipped [OF f(1,2) False] obj_get_set downloads_def)
  next
    case False
    with assms(1) show ?thesis by (simp add: syncFile_not_skipped [OF f(1,2) \<open>\<not> skipped f\<close>])
  qed
qed

lemma syncFile_Done_changed:
  assumes "syncFile w localPath f known tr = (Done u, known', tr')"
    and "f_id f = Val i" "f_name f = Val n" "\<not> skipped f" "changed known i f"
  shows "known' = obj_set known i
           \<lparr>modifiedTime = f_modifiedTime f, name = safeName n, mimeType = f_mimeType f\<rparr>
       \<and> downloads tr' i = downloads tr i + 1"
proof -
  from assms(2-4) have ne: "i \<noteq> []" "n \<noteq> []" by (auto simp: skipped_def)
  from downloadBinary_cases [OF assms(2,3) ne, of w localPath tr] assms(1,5)
  show ?thesis
    by (auto simp: syncFile_not_skipped [OF assms(2-4)] downloads_def)
qed

lemma changed_iff:
  "changed known i f \<longleftrightarrow>
     obj_get known i = None \<or> (\<exists>rec. obj_get known i = Some rec \<and> modifiedTime rec \<noteq> f_modifiedTime f)"
  by (simp add: changed_def split: option.splits)

lemma addUpdate_single:
  assumes "addUpdate w localPath fs known tr = (Done u, known', tr')"
    and "f \<in> set fs" and "f_id f = Val i" and "f_name f = Val n" and "\<not> skipped f"
    and "\<forall>g\<in>set fs. f_id g = Val i \<longrightarrow> g = f"
  shows "downloads tr' i = downloads tr i + (if changed known i f then 1 else 0)
    \<and> obj_get known' i =
        (if changed known i f
         then Some \<lparr>modifiedTime = f_modifiedTime f, name = safeName n, mimeType = f_mimeType f\<rparr>
         else obj_get known i)"
  using assms(1,2,6)
proof (induction fs arbitrary: known tr)
  case Nil
  then show ?case by simp
next
  case (Cons g gs)
  let ?new = "\<lparr>modifiedTime = f_modifiedTime f, name = safeName n, mimeType = f_mimeType f\<rparr>"
  obtain r1 k1 t1 where step: "syncFile w localPath g known tr = (r1, k1, t1)"
    by (cases "syncFile w localPath g known tr")
  with Cons.prems(1) have r1: "r1 = Done ()" by (cases r1) simp_all
  with step Cons.prems(1) have rest: "addUpdate w localPath gs k1 t1 = (Done u, known', tr')"
    by simp
  from step r1 have step': "syncFile w localPath g known tr = (Done (), k1, t1)" by simp
  show ?case
  proof (cases "g = f")
    case True
    show ?thesis
    proof (cases "changed known i f")
      case True
      from syncFile_Done_changed [OF step' [unfolded \<open>g = f\<close>] assms(3,4,5) True]
      have k1: "k1 = obj_set known i ?new" and t1: "downloads t1 i = downloads tr i + 1"
        by simp_all
      have here: "obj_get k1 i = Some ?new" by (simp add: k1 obj_get_set)
      have same: "\<forall>h\<in>set gs. f_id h = Val i \<longrightarrow> skipped h \<or> f_modifiedTime h = modifiedTime ?new"
        using Cons.prems(3) by auto
      from addUpdate_unchanged [OF rest here same] t1 True show ?thesis by simp
    next
      case False
      then obtain rec where rec: "obj_get known i = Some rec" "modifiedTime rec = f_modifiedTime f"
        by (auto simp: changed_iff)
      from False step' \<open>g = f\<close> have k1: "k1 = known" "t1 = tr"
        by (simp_all add: syncFile_not_skipped [OF assms(3,4,5)])
      have same: "\<forall>h\<in>set gs. f_id h = Val i \<longrightarrow> skipped h \<or> f_modifiedTime h = modifiedTime rec"
        using Cons.prems(3) rec(2) by auto
      from addUpdate_unchanged [OF rest [unfolded k1] rec(1) same] False rec(1) show ?thesis by simp
    qed
  next
    case False
    with Cons.prems(3) have "f_id g \<noteq> Val i" by auto
    from syncFile_other [OF step this]
    have keep: "obj_get k1 i = obj_get known i" "downloads t1 i = downloads tr i" by simp_all
    then have ch: "changed k1 i f = changed known i f" by (simp add: changed_def)
    from False Cons.prems(2) have mem: "f \<in> set gs" by simp
    from Cons.prems(3) have uniq: "\<forall>h\<in>set gs. f_id h = Val i \<longrightarrow> h = f" by simp
    from Cons.IH [OF rest mem uniq] keep ch show ?thesis by simp
  qed
qed

lemmas run_defs =
  syncFolder_def syncFile_def downloadBinary_def removeMissing_def unlink_def store_def
  changed_def isGoogleMime_def IGNORE_GOOGLE_MIMES_def safeName_def trim_def illegal_def
  placeholder_def is_ws_def path_join_def obj_set_def obj_delete_def obj_simps
  is_array_index_def digit_def index_value_def lit_def Let_def
  quiet_def rec_a_def rec_b_def entry_a_def entry_b_def state_a_def photos_def photos_dir_def
  PUBLIC_DIR_def

lemma eval_modified_and_new:
  "syncFolder quiet [entry_a\<lparr>f_modifiedTime := Val (lit ''t2'')\<rparr>, entry_b] photos_dir state_a photos []
     = (Done (),
        \<lparr>dirs = [(photos, \<lparr>files = [(lit ''a'', rec_a\<lparr>modifiedTime := Val (lit ''t2'')\<rparr>),
                                    (lit ''b'', rec_b)]\<rparr>)]\<rparr>,
        [Mkdir photos_dir,
         Open (path_join photos_dir (lit ''a.jpg'')), Get (lit ''a''), Close (path_join photos_dir (lit ''a.jpg'')),
         Open (path_join photos_dir (lit ''b.png'')), Get (lit ''b''), Close (path_join photos_dir (lit ''b.png''))])"
  by (simp add: run_defs)

section \<open>Running syncFolder twice\<close>

lemma syncFile_Done_fresh:
  assumes "syncFile w localPath f known tr = (Done u, known', tr')"
    and "f_id f = Val i" and "\<not> skipped f"
  shows "\<exists>rec. obj_get known' i = Some rec \<and> modifiedTime rec = f_modifiedTime f"
proof -
  from assms(3) obtain n where n: "f_name f = Val n" using not_skipped by blast
  show ?thesis
  proof (cases "changed known i f")
    case True
    from syncFile_Done_changed [OF assms(1,2) n assms(3) True]
    show ?thesis by (simp add: obj_get_set)
  next
    case False
    with assms(1) have "known' = known" by (simp add: syncFile_not_skipped [OF assms(2) n assms(3)])
    with False show ?thesis by (auto simp: changed_iff)
  qed
qed

lemma addUpdate_Done_fresh:
  assumes "addUpdate w localPath fs known tr = (Done u, known', tr')"
    and "\<forall>f\<in>set fs. \<forall>g\<in>set fs. \<not> skipped f \<longrightarrow> \<not> skipped g \<longrightarrow> f_id f = f_id g \<longrightarrow>
           f_modifiedTime f = f_modifiedTime g"
    and "f \<in> set fs" and "f_id f = Val i" and "\<not> skipped f"
  shows "\<not> changed known' i f"
  using assms(1,2,3)
proof (induction fs arbitrary: known tr)
  case Nil
  then show ?case by simp
next
  case (Cons g gs)
  obtain r1 k1 t1 where step: "syncFile w localPath g known tr = (r1, k1, t1)"
    by (cases "syncFile w localPath g known tr")
  with Cons.prems(1) have r1: "r1 = Done ()" by (cases r1) simp_all
  with step Cons.prems(1) have rest: "addUpdate w localPath gs k1 t1 = (Done u, known', tr')"
    by simp
  from step r1 have step': "syncFile w localPath g known tr = (Done (), k1, t1)" by simp
  have agree: "\<forall>f\<in>set gs. \<forall>h\<in>set gs. \<not> skipped f \<longrightarrow> \<not> skipped h \<longrightarrow> f_id f = f_id h \<longrightarrow>
           f_modifiedTime f = f_modifiedTime h"
  proof -
    have "set gs \<subseteq> set (g # gs)" by auto
    with Cons.prems(2) show ?thesis by blast
  qed
  show ?case
  proof (cases "g = f")
    case True
    from syncFile_Done_fresh [OF step' [unfolded True] assms(4,5)]
    obtain rec where rec: "obj_get k1 i = Some rec" "modifiedTime rec = f_modifiedTime f" by blast
    have same: "\<forall>h\<in>set gs. f_id h = Val i \<longrightarrow> skipped h \<or> f_modifiedTime h = modifiedTime rec"
    proof (intro ballI impI)
      fix h assume h: "h \<in> set gs" "f_id h = Val i"
      show "skipped h \<or> f_modifiedTime h = modifiedTime rec"
      proof (cases "skipped h")
        case True
        then show ?thesis by simp
      next
        case False
        have fm: "f \<in> set (g # gs)" and hm: "h \<in> set (g # gs)"
          using \<open>g = f\<close> h(1) by simp_all
        have ids: "f_id f = f_id h" using h(2) assms(4) by simp
        from Cons.prems(2) fm hm assms(5) False ids
        have "f_modifiedTime f = f_modifiedTime h" by blast
        with rec(2) show ?thesis by simp
      qed
    qed
    from addUpdate_unchanged [OF rest rec(1) same] rec(2) show ?thesis
      by (simp add: changed_def)
  next
    case False
    with Cons.prems(3) have "f \<in> set gs" by simp
    from Cons.IH [OF rest agree this] show ?thesis .
  qed
qed

lemma addUpdate_noop:
  assumes "\<forall>f\<in>set fs. \<forall>i. f_id f = Val i \<longrightarrow> \<not> skipped f \<longrightarrow> \<not> changed known i f"
  shows "addUpdate w localPath fs known tr = (Done (), known, tr)"
  using assms
proof (induction fs)
  case Nil
  then show ?case by simp
next
  case (Cons f fs)
  have "syncFile w localPath f known tr = (Done (), known, tr)"
  proof (cases "skipped f")
    case True
    then show ?thesis by (rule syncFile_skipped)
  next
    case False
    then obtain i n where f: "f_id f = Val i" "f_name f = Val n" using not_skipped by blast
    with Cons.prems False have "\<not> changed known i f" by simp
    then show ?thesis by (simp add: syncFile_not_skipped [OF f False])
  qed
  with Cons show ?case by simp
qed

lemma cleanup_Done_listed:
  assumes "cleanup w localPath driveIds (obj_keys known) known tr = (Done u, known', tr')"
  shows "\<forall>i\<in>set (obj_keys known'). Val i \<in> set driveIds"
  using cleanup_Done [OF assms] by (auto simp: obj_keys_def)

lemma store_known_of:
  assumes "obj_get (dirs state) key = Some d"
  shows "store state key (dir_of state key) (known_of state key) = state"
  using assms by (simp add: store_same)

lemma dirs_store_key:
  "obj_get (dirs (store state key dir known)) key = Some (dir\<lparr>files := known\<rparr>)"
  by (simp add: store_def obj_get_set)

text \<open>
  C2. Let a run of \<open>syncFolder\<close> on a listing complete, where the entries of the listing
  that share an id agree on \<open>modifiedTime\<close> (ids are unique within a listing). A second
  run on the same listing and the resulting state, in any world, calls \<open>fs.mkdir\<close> for
  the directory and nothing else: it requests no content, removes no file, and returns
  the state it was given.
\<close>

theorem syncFolder_idempotent:
  assumes "syncFolder w fs localPath state key tr = (Done u, state1, tr1)"
    and "\<forall>f\<in>set fs. \<forall>g\<in>set fs. \<not> skipped f \<longrightarrow> \<not> skipped g \<longrightarrow> f_id f = f_id g \<longrightarrow>
           f_modifiedTime f = f_modifiedTime g"
  shows "syncFolder w' fs localPath state1 key tr1 =
           (if fails w' (Mkdir localPath) then Threw (IOError (Mkdir localPath)) else Done (),
            state1, tr1 @ [Mkdir localPath])"
  using assms(1)
proof (cases rule: syncFolder_cases)
  case mkdir
  then show ?thesis by simp
next
  case (aborted e k1)
  then show ?thesis by simp
next
  case (completed k1 t1 k2)
  from completed(3) have cl: "cleanup w localPath (map f_id fs) (obj_keys k1) k1 t1 = (Done u, k2, tr1)"
    by simp
  have known1: "known_of state1 key = k2" by (simp add: completed(4) known_of_store)
  have present: "obj_get (dirs state1) key = Some ((dir_of state key)\<lparr>files := k2\<rparr>)"
    by (simp add: completed(4) dirs_store_key)
  have fresh: "\<forall>f\<in>set fs. \<forall>i. f_id f = Val i \<longrightarrow> \<not> skipped f \<longrightarrow> \<not> changed k2 i f"
  proof (intro ballI allI impI)
    fix f i assume f: "f \<in> set fs" "f_id f = Val i" "\<not> skipped f"
    from f(1,2) have "Val i \<in> set (map f_id fs)" by force
    from cleanup_keep [OF cl this] addUpdate_Done_fresh [OF completed(2) assms(2) f]
    show "\<not> changed k2 i f" by (simp add: changed_def)
  qed
  show ?thesis
  proof (cases "fails w' (Mkdir localPath)")
    case True
    then show ?thesis by (simp add: syncFolder_mkdir_fails)
  next
    case False
    have au: "addUpdate w' localPath fs (known_of state1 key) (tr1 @ [Mkdir localPath]) =
        (Done (), k2, tr1 @ [Mkdir localPath])"
      unfolding known1 using fresh by (rule addUpdate_noop)
    have cl2: "cleanup w' localPath (map f_id fs) (obj_keys k2) k2 (tr1 @ [Mkdir localPath]) =
        (Done (), k2, tr1 @ [Mkdir localPath])"
      using cleanup_Done_listed [OF cl] by (rule cleanup_noop)
    from syncFolder_done [OF False au cl2] store_known_of [OF present] known1 False
    show ?thesis by simp
  qed
qed

theorem syncFolder_idempotent_witness:
  "syncFolder (quiet\<lparr>fails := (\<lambda>c. c = Get (lit ''a''))\<rparr>)
       [entry_a\<lparr>f_modifiedTime := Val (lit ''t2'')\<rparr>, entry_b] photos_dir
       (fst (snd (syncFolder quiet [entry_a\<lparr>f_modifiedTime := Val (lit ''t2'')\<rparr>, entry_b]
          photos_dir state_a photos [])))
       photos
       (snd (snd (syncFolder quiet [entry_a\<lparr>f_modifiedTime := Val (lit ''t2'')\<rparr>, entry_b]
          photos_dir state_a photos [])))
     = (Done (),
        fst (snd (syncFolder quiet [entry_a\<lparr>f_modifiedTime := Val (lit ''t2'')\<rparr>, entry_b]
          photos_dir state_a photos [])),
        snd (snd (syncFolder quiet [entry_a\<lparr>f_modifiedTime := Val (lit ''t2'')\<rparr>, entry_b]
          photos_dir state_a photos [])) @ [Mkdir photos_dir])
   \<and> fst (syncFolder quiet [entry_a\<lparr>f_modifiedTime := Val (lit ''t2'')\<rparr>, entry_b]
          photos_dir state_a photos []) = Done ()"
proof -
  let ?fs = "[entry_a\<lparr>f_modifiedTime := Val (lit ''t2'')\<rparr>, entry_b]"
  let ?run = "syncFolder quiet ?fs photos_dir state_a photos []"
  have run: "?run = (Done (), fst (snd ?run), snd (snd ?run))"
    by (simp add: eval_modified_and_new)
  have agree: "\<forall>f\<in>set ?fs. \<forall>g\<in>set ?fs. \<not> skipped f \<longrightarrow> \<not> skipped g \<longrightarrow> f_id f = f_id g \<longrightarrow>
           f_modifiedTime f = f_modifiedTime g"
    by (simp add: entry_a_def entry_b_def lit_def)
  have "fst ?run = Done ()" by (simp add: eval_modified_and_new)
  with syncFolder_idempotent [OF run agree, of "quiet\<lparr>fails := (\<lambda>c. c = Get (lit ''a''))\<rparr>"]
  show ?thesis by simp
qed

section \<open>A download that fails\<close>

lemma addUpdate_append:
  "addUpdate w localPath (pre @ rest) known tr =
     (case addUpdate w localPath pre known tr of
        (Threw e, k, t) \<Rightarrow> (Threw e, k, t)
      | (Done u, k, t) \<Rightarrow> addUpdate w localPath rest k t)"
proof (induction pre arbitrary: known tr)
  case Nil
  then show ?case by simp
next
  case (Cons f pre)
  obtain r1 k1 t1 where step: "syncFile w localPath f known tr = (r1, k1, t1)"
    by (cases "syncFile w localPath f known tr")
  show ?case by (cases r1) (simp_all add: step Cons.IH)
qed

lemma addUpdate_other:
  assumes "addUpdate w localPath fs known tr = (r, known', tr')"
    and "\<forall>f\<in>set fs. f_id f \<noteq> Val j"
  shows "obj_get known' j = obj_get known j \<and> downloads tr' j = downloads tr j"
  using assms
proof (induction fs arbitrary: known tr)
  case Nil
  then show ?case by simp
next
  case (Cons f fs)
  obtain r1 k1 t1 where step: "syncFile w localPath f known tr = (r1, k1, t1)"
    by (cases "syncFile w localPath f known tr")
  from Cons.prems(2) have "f_id f \<noteq> Val j" by simp
  from syncFile_other [OF step this]
  have keep: "obj_get k1 j = obj_get known j \<and> downloads t1 j = downloads tr j" .
  show ?case
  proof (cases r1)
    case (Threw e)
    with step Cons.prems(1) keep show ?thesis by simp
  next
    case (Done u)
    with step Cons.prems(1) have "addUpdate w localPath fs k1 t1 = (r, known', tr')" by simp
    from Cons.IH [OF this] keep Cons.prems(2) show ?thesis by simp
  qed
qed

lemma syncFile_calls:
  assumes "syncFile w localPath f known tr = (r, known', tr')"
  shows "\<exists>ext. tr' = tr @ ext \<and> list_all fetch_call ext"
proof (cases "skipped f")
  case True
  with assms show ?thesis by (simp add: syncFile_skipped)
next
  case False
  then obtain i n where f: "f_id f = Val i" "f_name f = Val n" "i \<noteq> []" "n \<noteq> []"
    using not_skipped by blast
  show ?thesis
  proof (cases "changed known i f")
    case True
    from downloadBinary_cases [OF f, of w localPath tr] assms True
    show ?thesis
      by (auto simp: syncFile_not_skipped [OF f(1,2) False])
  next
    case False
    with assms show ?thesis by (simp add: syncFile_not_skipped [OF f(1,2) \<open>\<not> skipped f\<close>])
  qed
qed

lemma addUpdate_calls:
  assumes "addUpdate w localPath fs known tr = (r, known', tr')"
  shows "\<exists>ext. tr' = tr @ ext \<and> list_all fetch_call ext"
  using assms
proof (induction fs arbitrary: known tr)
  case Nil
  then show ?case by simp
next
  case (Cons f fs)
  obtain r1 k1 t1 where step: "syncFile w localPath f known tr = (r1, k1, t1)"
    by (cases "syncFile w localPath f known tr")
  from syncFile_calls [OF step] obtain e1 where e1: "t1 = tr @ e1" "list_all fetch_call e1"
    by blast
  show ?case
  proof (cases r1)
    case (Threw e)
    with step Cons.prems have "tr' = t1" by simp
    with e1 show ?thesis by blast
  next
    case (Done u)
    with step Cons.prems have "addUpdate w localPath fs k1 t1 = (r, known', tr')" by simp
    from Cons.IH [OF this] obtain e2 where "tr' = t1 @ e2" "list_all fetch_call e2" by blast
    with e1 have "tr' = tr @ (e1 @ e2)" "list_all fetch_call (e1 @ e2)" by simp_all
    then show ?thesis by blast
  qed
qed

lemma downloadBinary_calls:
  assumes "downloadBinary w f outDir tr = (r, tr')"
  shows "\<exists>ext. tr' = tr @ ext \<and> list_all fetch_call ext"
  using assms
  by (cases "f_id f"; cases "f_name f")
     (auto simp: downloadBinary_def Let_def split: if_splits)

text \<open>
  C1, as the code has it. A failing download is an exception that nothing in
  \<open>syncFolder\<close> catches. Take a plain run: the directory key is an own property of
  \<open>state.dirs\<close> or no name inherited from \<open>Object.prototype\<close>, and no id of the entries the
  loop reaches is such a name. When the entries \<open>pre\<close> before \<open>f\<close> have been processed without
  an exception and the download of \<open>f\<close> fails, \<open>syncFolder\<close> ends with that exception:
  the state holds what \<open>pre\<close> left (so the record of the failing id is as it was before
  the run, neither added nor updated, when no earlier entry has that id), the result
  does not depend on the entries \<open>post\<close> after \<open>f\<close>, and no \<open>fs.unlink\<close> was called.
\<close>

theorem download_failure_aborts:
  assumes "\<not> fails w (Mkdir localPath)"
    and "addUpdate w localPath pre (known_of state key) (tr @ [Mkdir localPath]) = (Done u, k1, t1)"
    and "\<forall>g\<in>set pre. f_id g \<noteq> Val i"
    and "f_id f = Val i" and "f_name f = Val n" and "\<not> skipped f" and "changed k1 i f"
    and "downloadBinary w f localPath t1 = (Threw e, t2)"
    and "plain_run state key (pre @ [f])"
  shows "syncFolder w (pre @ f # post) localPath state key tr =
           (Threw e, store state key (dir_of state key) k1, t2)
    \<and> obj_get (known_of (store state key (dir_of state key) k1) key) i
        = obj_get (known_of state key) i
    \<and> filter unlink_call t2 = filter unlink_call tr"
proof -
  from assms(5-8) have "syncFile w localPath f k1 t1 = (Threw e, k1, t2)"
    by (simp add: syncFile_not_skipped [OF assms(4,5,6)])
  with assms(2) have "addUpdate w localPath (pre @ f # post) (known_of state key)
      (tr @ [Mkdir localPath]) = (Threw e, k1, t2)"
    by (simp add: addUpdate_append)
  from syncFolder_threw [OF assms(1) this]
  have run: "syncFolder w (pre @ f # post) localPath state key tr =
           (Threw e, store state key (dir_of state key) k1, t2)" .
  from addUpdate_other [OF assms(2,3)]
  have rec: "obj_get (known_of (store state key (dir_of state key) k1) key) i
        = obj_get (known_of state key) i"
    by (simp add: known_of_store)
  from addUpdate_calls [OF assms(2)] obtain e1 where
    e1: "t1 = (tr @ [Mkdir localPath]) @ e1" "list_all fetch_call e1" by blast
  from downloadBinary_calls [OF assms(8)] obtain e2 where
    e2: "t2 = t1 @ e2" "list_all fetch_call e2" by blast
  have none: "filter unlink_call ext = []" if "list_all fetch_call ext" for ext
    using that by (induction ext) (auto elim: fetch_call.elims)
  from e1 e2 have "filter unlink_call t2 = filter unlink_call tr"
    by (simp add: none)
  with run rec show ?thesis by simp
qed

lemmas world_defs = no_a_def state_empty_def

theorem download_failure_aborts_witness:
  "syncFolder no_a ([] @ entry_a # [entry_b]) photos_dir state_empty photos [] =
     (Threw (IOError (Get (lit ''a''))),
      store state_empty photos (dir_of state_empty photos) (known_of state_empty photos),
      [Mkdir photos_dir, Open (path_join photos_dir (lit ''a.jpg'')), Get (lit ''a''),
       Close (path_join photos_dir (lit ''a.jpg''))])
   \<and> obj_get (known_of (store state_empty photos (dir_of state_empty photos)
         (known_of state_empty photos)) photos) (lit ''a'') = None
   \<and> \<not> skipped entry_a
   \<and> plain_run state_empty photos ([] @ [entry_a])"
proof -
  have mk: "\<not> fails no_a (Mkdir photos_dir)" by (simp add: no_a_def quiet_def)
  have pre: "addUpdate no_a photos_dir [] (known_of state_empty photos) ([] @ [Mkdir photos_dir])
      = (Done (), known_of state_empty photos, [Mkdir photos_dir])"
    by simp
  have none: "\<forall>g\<in>set []. f_id g \<noteq> Val (lit ''a'')" by simp
  have fid: "f_id entry_a = Val (lit ''a'')" and fname: "f_name entry_a = Val (lit ''a.jpg'')"
    by (simp_all add: entry_a_def)
  have ns: "\<not> skipped entry_a"
    by (simp add: skipped_def entry_a_def isGoogleMime_def IGNORE_GOOGLE_MIMES_def lit_def)
  have empty: "known_of state_empty photos = []"
    by (simp add: known_of_def state_empty_def obj_simps)
  have ch: "changed (known_of state_empty photos) (lit ''a'') entry_a"
    by (simp add: empty changed_def obj_simps)
  have dl: "downloadBinary no_a entry_a photos_dir [Mkdir photos_dir] =
      (Threw (IOError (Get (lit ''a''))),
       [Mkdir photos_dir, Open (path_join photos_dir (lit ''a.jpg'')), Get (lit ''a''),
        Close (path_join photos_dir (lit ''a.jpg''))])"
    by (simp add: run_defs world_defs)
  have plain: "plain_run state_empty photos ([] @ [entry_a])"
    by (simp add: plain_run_def inherited_def PROTO_NAMES_def photos_def entry_a_def lit_def)
  from download_failure_aborts [OF mk pre none fid fname ns ch dl plain, of "[entry_b]"] ns empty plain
  show ?thesis by (simp add: obj_simps)
qed

theorem download_failure_isolation_counterexample:
  "syncFolder no_a [entry_a, entry_b] photos_dir state_empty photos [] =
     (Threw (IOError (Get (lit ''a''))),
      \<lparr>dirs = [(photos, \<lparr>files = []\<rparr>)]\<rparr>,
      [Mkdir photos_dir, Open (path_join photos_dir (lit ''a.jpg'')), Get (lit ''a''),
       Close (path_join photos_dir (lit ''a.jpg''))])
   \<and> syncFolder no_a [entry_b] photos_dir state_empty photos [] =
     (Done (),
      \<lparr>dirs = [(photos, \<lparr>files = [(lit ''b'', rec_b)]\<rparr>)]\<rparr>,
      [Mkdir photos_dir, Open (path_join photos_dir (lit ''b.png'')), Get (lit ''b''),
       Close (path_join photos_dir (lit ''b.png''))])"
  by (simp add: run_defs world_defs)

section \<open>Entries that the first loop reaches\<close>

lemma downloadBinary_open:
  assumes "f_id f = Val i" "f_name f = Val n" "i \<noteq> []" "n \<noteq> []"
  shows "snd (downloadBinary w f outDir tr) =
           (if fails w (Open (path_join outDir (safeName n)))
            then tr @ [Open (path_join outDir (safeName n))]
            else tr @ [Open (path_join outDir (safeName n)), Get i,
                       Close (path_join outDir (safeName n))])
       \<and> (fails w (Open (path_join outDir (safeName n))) \<longrightarrow>
            fst (downloadBinary w f outDir tr) = Threw (IOError (Open (path_join outDir (safeName n)))))"
  using assms by (simp add: downloadBinary_def Let_def)

lemma cleanup_prefix:
  assumes "cleanup w localPath driveIds ids known tr = (r, known', tr')"
  shows "prefix tr tr'"
  using assms
proof (induction ids arbitrary: known tr)
  case Nil
  then show ?case by simp
next
  case (Cons i ids)
  obtain r1 k1 t1 where step: "removeMissing w localPath driveIds i known tr = (r1, k1, t1)"
    by (cases "removeMissing w localPath driveIds i known tr")
  then have p1: "prefix tr t1"
    by (auto simp: removeMissing_def unlink_def split: if_splits option.splits)
  show ?case
  proof (cases r1)
    case (Threw e)
    with step Cons.prems p1 show ?thesis by simp
  next
    case (Done u)
    with step Cons.prems have "cleanup w localPath driveIds ids k1 t1 = (r, known', tr')" by simp
    from Cons.IH [OF this] p1 show ?thesis by (rule prefix_order.trans [rotated])
  qed
qed

lemma addUpdate_prefix:
  assumes "addUpdate w localPath fs known tr = (r, known', tr')"
  shows "prefix tr tr'"
proof -
  have "\<exists>ext. tr' = tr @ ext" using assms
  proof (induction fs arbitrary: known tr)
    case Nil
    then show ?case by simp
  next
    case (Cons f fs)
    obtain r1 k1 t1 where step: "syncFile w localPath f known tr = (r1, k1, t1)"
      by (cases "syncFile w localPath f known tr")
    have e1: "\<exists>ext. t1 = tr @ ext"
    proof (cases "skipped f")
      case True
      with step show ?thesis by (simp add: syncFile_skipped)
    next
      case False
      then obtain i n where f: "f_id f = Val i" "f_name f = Val n" "i \<noteq> []" "n \<noteq> []"
        using not_skipped by blast
      from downloadBinary_cases [OF f, of w localPath tr] step
      show ?thesis
        by (auto simp: syncFile_not_skipped [OF f(1,2) False] split: if_splits)
    qed
    show ?case
    proof (cases r1)
      case (Threw e)
      with step Cons.prems e1 show ?thesis by simp
    next
      case (Done u)
      with step Cons.prems have "addUpdate w localPath fs k1 t1 = (r, known', tr')" by simp
      from Cons.IH [OF this] e1 show ?thesis by auto
    qed
  qed
  then show ?thesis by (auto simp: prefix_def)
qed

lemma syncFolder_listed:
  assumes "\<not> fails w (Mkdir localPath)"
    and "addUpdate w localPath fs (known_of state key) (tr @ [Mkdir localPath]) = (ra, ka, ta)"
    and "syncFolder w fs localPath state key tr = (r, state', tr')"
    and "Val i \<in> set (map f_id fs)"
  shows "obj_get (known_of state' key) i = obj_get ka i \<and> downloads tr' i = downloads ta i
    \<and> prefix ta tr'"
proof (cases ra)
  case (Threw e)
  from syncFolder_threw [OF assms(1) assms(2) [unfolded Threw]] assms(3)
  have "state' = store state key (dir_of state key) ka" "tr' = ta" by simp_all
  then show ?thesis by (simp add: known_of_store)
next
  case (Done u)
  obtain r2 k2 t2 where cl: "cleanup w localPath (map f_id fs) (obj_keys ka) ka ta = (r2, k2, t2)"
    by (cases "cleanup w localPath (map f_id fs) (obj_keys ka) ka ta")
  from syncFolder_done [OF assms(1) assms(2) [unfolded Done] cl] assms(3)
  have "state' = store state key (dir_of state key) k2" "tr' = t2" by simp_all
  with cleanup_keep [OF cl assms(4)] cleanup_downloads [OF cl, of i] cleanup_prefix [OF cl]
  show ?thesis by (simp add: known_of_store)
qed

text \<open>
  C3, as the code has it. Take a plain run of \<open>syncFolder\<close> on the listing \<open>pre @ f # post\<close>
  in which \<open>fs.mkdir\<close> succeeds and the loop reaches \<open>f\<close>: the entries \<open>pre\<close> before it have
  been processed without an exception, with trace \<open>t1\<close>. Let \<open>f\<close> not be skipped and be
  the only entry of its id \<open>i\<close>. When the state had no record for \<open>i\<close>, or one whose
  \<open>modifiedTime\<close> is not equal to the entry's, the download of \<open>f\<close> is the next thing the
  run does (it starts with \<open>fs.open\<close> of \<open>localPath/safeName name\<close>), and the content of \<open>i\<close> is
  requested from Drive exactly once in the run unless that \<open>fs.open\<close> fails; otherwise
  the loop passes \<open>f\<close> without a call and the content of \<open>i\<close> is not requested in the run.
  The state the run ends with, whether it completes or a later entry fails, holds for
  \<open>i\<close> the record made of \<open>safeName\<close> of the entry's name, the entry's \<open>modifiedTime\<close> and its
  \<open>mimeType\<close> when the download was due and succeeded, and the record of before otherwise.
\<close>

theorem download_iff_new_or_modified:
  assumes "\<not> fails w (Mkdir localPath)"
    and "addUpdate w localPath pre (known_of state key) (tr @ [Mkdir localPath]) = (Done u, k1, t1)"
    and "syncFolder w (pre @ f # post) localPath state key tr = (r, state', tr')"
    and "f_id f = Val i" and "f_name f = Val n" and "\<not> skipped f"
    and "\<forall>g\<in>set (pre @ post). f_id g \<noteq> Val i"
    and "plain_run state key (pre @ f # post)"
  shows "downloads tr' i = downloads tr i +
           (if (obj_get (known_of state key) i = None
                \<or> (\<exists>rec. obj_get (known_of state key) i = Some rec
                         \<and> modifiedTime rec \<noteq> f_modifiedTime f))
               \<and> \<not> fails w (Open (path_join localPath (safeName n)))
            then 1 else 0)
    \<and> (if obj_get (known_of state key) i = None
           \<or> (\<exists>rec. obj_get (known_of state key) i = Some rec
                    \<and> modifiedTime rec \<noteq> f_modifiedTime f)
        then prefix (t1 @ [Open (path_join localPath (safeName n))]) tr'
        else addUpdate w localPath (pre @ [f]) (known_of state key) (tr @ [Mkdir localPath])
               = (Done (), k1, t1))
    \<and> obj_get (known_of state' key) i =
           (if (obj_get (known_of state key) i = None
                \<or> (\<exists>rec. obj_get (known_of state key) i = Some rec
                         \<and> modifiedTime rec \<noteq> f_modifiedTime f))
               \<and> (\<exists>saved t2. downloadBinary w f localPath t1 = (Done saved, t2))
            then Some \<lparr>modifiedTime = f_modifiedTime f, name = safeName n, mimeType = f_mimeType f\<rparr>
            else obj_get (known_of state key) i)"
proof -
  let ?p = "path_join localPath (safeName n)"
  let ?R = "\<lparr>modifiedTime = f_modifiedTime f, name = safeName n, mimeType = f_mimeType f\<rparr>"
  let ?init = "known_of state key"
  let ?t0 = "tr @ [Mkdir localPath]"
  let ?cond = "obj_get ?init i = None
     \<or> (\<exists>rec. obj_get ?init i = Some rec \<and> modifiedTime rec \<noteq> f_modifiedTime f)"
  from assms(4-6) have ne: "i \<noteq> []" "n \<noteq> []" by (auto simp: skipped_def)
  from assms(7) have upre: "\<forall>g\<in>set pre. f_id g \<noteq> Val i" and upost: "\<forall>g\<in>set post. f_id g \<noteq> Val i"
    by simp_all
  from addUpdate_other [OF assms(2) upre]
  have k1i: "obj_get k1 i = obj_get ?init i" and d1: "downloads t1 i = downloads tr i"
    by (simp_all add: downloads_snoc_mkdir)
  have ch: "changed k1 i f \<longleftrightarrow> ?cond" by (simp add: changed_iff k1i)
  have listed: "Val i \<in> set (map f_id (pre @ f # post))" using assms(4) by simp
  obtain ra ka ta where whole:
    "addUpdate w localPath (pre @ f # post) ?init ?t0 = (ra, ka, ta)"
    by (cases "addUpdate w localPath (pre @ f # post) ?init ?t0")
  from syncFolder_listed [OF assms(1) whole assms(3) listed]
  have fin: "obj_get (known_of state' key) i = obj_get ka i" "downloads tr' i = downloads ta i"
    "prefix ta tr'" by simp_all
  from whole assms(2) have rest:
    "(case syncFile w localPath f k1 t1 of
        (Threw e, k, t) \<Rightarrow> (Threw e, k, t)
      | (Done v, k, t) \<Rightarrow> addUpdate w localPath post k t) = (ra, ka, ta)"
    by (simp add: addUpdate_append)
  show ?thesis
  proof (cases ?cond)
    case False
    with ch have step: "syncFile w localPath f k1 t1 = (Done (), k1, t1)"
      by (simp add: syncFile_not_skipped [OF assms(4-6)])
    with rest have post: "addUpdate w localPath post k1 t1 = (ra, ka, ta)" by simp
    from addUpdate_other [OF post upost] k1i d1 fin
    have a: "downloads tr' i = downloads tr i"
      and c: "obj_get (known_of state' key) i = obj_get ?init i" by simp_all
    from assms(2) step
    have b: "addUpdate w localPath (pre @ [f]) ?init ?t0 = (Done (), k1, t1)"
      by (simp add: addUpdate_append)
    show ?thesis by (simp only: False if_False simp_thms a b c)
  next
    case True
    with ch have chg: "changed k1 i f" by simp
    obtain r2 t2 where dl: "downloadBinary w f localPath t1 = (r2, t2)"
      by (cases "downloadBinary w f localPath t1")
    from downloadBinary_open [OF assms(4,5) ne, of w localPath t1]
    have t2: "t2 = (if fails w (Open ?p) then t1 @ [Open ?p] else t1 @ [Open ?p, Get i, Close ?p])"
      and opened: "fails w (Open ?p) \<Longrightarrow> r2 = Threw (IOError (Open ?p))"
      unfolding dl by simp_all
    from t2 have p2: "prefix (t1 @ [Open ?p]) t2" by (simp add: prefix_def)
    from t2 d1 have d2: "downloads t2 i = downloads tr i + (if \<not> fails w (Open ?p) then 1 else 0)"
      by (simp add: downloads_def)
    show ?thesis
    proof (cases r2)
      case (Threw e)
      with dl chg have "syncFile w localPath f k1 t1 = (Threw e, k1, t2)"
        by (simp add: syncFile_not_skipped [OF assms(4-6)])
      with rest have "ka = k1" "ta = t2" by simp_all
      with fin k1i d2 p2
      have a: "downloads tr' i = downloads tr i + (if \<not> fails w (Open ?p) then 1 else 0)"
        and b: "prefix (t1 @ [Open ?p]) tr'"
        and c: "obj_get (known_of state' key) i = obj_get ?init i"
        by (auto intro: prefix_order.trans)
      from dl Threw have no: "\<not> (\<exists>saved t2. downloadBinary w f localPath t1 = (Done saved, t2))"
        by simp
      show ?thesis by (simp only: True no if_True if_False simp_thms a b c)
    next
      case (Done saved)
      with opened have op: "\<not> fails w (Open ?p)" by auto
      from dl Done chg have "syncFile w localPath f k1 t1 = (Done (), obj_set k1 i ?R, t2)"
        by (simp add: syncFile_not_skipped [OF assms(4-6)])
      with rest have post: "addUpdate w localPath post (obj_set k1 i ?R) t2 = (ra, ka, ta)" by simp
      from addUpdate_other [OF post upost] addUpdate_prefix [OF post] fin d2 op p2
      have a: "downloads tr' i = downloads tr i + 1"
        and b: "prefix (t1 @ [Open ?p]) tr'"
        and c: "obj_get (known_of state' key) i = Some ?R"
        by (auto simp: obj_get_set intro: prefix_order.trans)
      from dl Done have ok: "\<exists>saved t2. downloadBinary w f localPath t1 = (Done saved, t2)" by simp
      show ?thesis by (simp only: True ok op if_True simp_thms a b c)
    qed
  qed
qed

theorem download_iff_new_or_modified_witness:
  "syncFolder no_a ([] @ entry_b # [entry_a]) photos_dir state_empty photos [] =
     (Threw (IOError (Get (lit ''a''))),
      \<lparr>dirs = [(photos, \<lparr>files = [(lit ''b'', rec_b)]\<rparr>)]\<rparr>,
      [Mkdir photos_dir,
       Open (path_join photos_dir (lit ''b.png'')), Get (lit ''b''), Close (path_join photos_dir (lit ''b.png'')),
       Open (path_join photos_dir (lit ''a.jpg'')), Get (lit ''a''), Close (path_join photos_dir (lit ''a.jpg''))])
   \<and> downloads (snd (snd (syncFolder no_a ([] @ entry_b # [entry_a]) photos_dir state_empty photos [])))
       (lit ''b'') = 1
   \<and> obj_get (known_of (fst (snd (syncFolder no_a ([] @ entry_b # [entry_a]) photos_dir state_empty
       photos []))) photos) (lit ''b'')
     = Some \<lparr>modifiedTime = Val (lit ''t1''), name = lit ''b.png'', mimeType = Val (lit ''image/png'')\<rparr>
   \<and> obj_get (known_of state_empty photos) (lit ''b'') = None
   \<and> \<not> skipped entry_b
   \<and> plain_run state_empty photos ([] @ entry_b # [entry_a])"
proof -
  let ?fs = "[] @ entry_b # [entry_a]"
  let ?run = "syncFolder no_a ?fs photos_dir state_empty photos []"
  have val: "?run =
     (Threw (IOError (Get (lit ''a''))),
      \<lparr>dirs = [(photos, \<lparr>files = [(lit ''b'', rec_b)]\<rparr>)]\<rparr>,
      [Mkdir photos_dir,
       Open (path_join photos_dir (lit ''b.png'')), Get (lit ''b''), Close (path_join photos_dir (lit ''b.png'')),
       Open (path_join photos_dir (lit ''a.jpg'')), Get (lit ''a''), Close (path_join photos_dir (lit ''a.jpg''))])"
    by (simp add: run_defs no_a_def state_empty_def)
  have run: "?run = (fst ?run, fst (snd ?run), snd (snd ?run))" by simp
  have mk: "\<not> fails no_a (Mkdir photos_dir)" by (simp add: no_a_def quiet_def)
  have pre: "addUpdate no_a photos_dir [] (known_of state_empty photos) ([] @ [Mkdir photos_dir])
      = (Done (), known_of state_empty photos, [Mkdir photos_dir])"
    by simp
  have fid: "f_id entry_b = Val (lit ''b'')" and fname: "f_name entry_b = Val (lit ''b.png'')"
    by (simp_all add: entry_b_def)
  have ns: "\<not> skipped entry_b"
    by (simp add: skipped_def entry_b_def isGoogleMime_def IGNORE_GOOGLE_MIMES_def lit_def)
  have uniq: "\<forall>g\<in>set ([] @ [entry_a]). f_id g \<noteq> Val (lit ''b'')"
    by (simp add: entry_a_def lit_def)
  have plain: "plain_run state_empty photos ?fs"
    by (simp add: plain_run_def inherited_def PROTO_NAMES_def photos_def entry_a_def entry_b_def
        lit_def)
  have new: "obj_get (known_of state_empty photos) (lit ''b'') = None"
    by (simp add: known_of_def state_empty_def obj_simps)
  have sn: "safeName (lit ''b.png'') = lit ''b.png''"
    by (simp add: safeName_def trim_def illegal_def is_ws_def lit_def)
  have op: "\<not> fails no_a (Open (path_join photos_dir (lit ''b.png'')))"
    by (simp add: no_a_def quiet_def)
  have ok: "\<exists>saved t2. downloadBinary no_a entry_b photos_dir [Mkdir photos_dir] = (Done saved, t2)"
    by (simp add: downloadBinary_def entry_b_def no_a_def quiet_def lit_def Let_def)
  from download_iff_new_or_modified [OF mk pre run fid fname ns uniq plain] new sn op ok
  have "downloads (snd (snd ?run)) (lit ''b'') = 1
    \<and> obj_get (known_of (fst (snd ?run)) photos) (lit ''b'')
        = Some \<lparr>modifiedTime = Val (lit ''t1''), name = lit ''b.png'', mimeType = Val (lit ''image/png'')\<rparr>"
    by (simp add: downloads_def entry_b_def)
  with val new ns plain show ?thesis by simp
qed

theorem download_not_reached_counterexample:
  "\<not> skipped entry_b
   \<and> obj_get (known_of state_empty photos) (lit ''b'') = None
   \<and> snd (snd (syncFolder no_a [entry_a, entry_b] photos_dir state_empty photos [])) =
       [Mkdir photos_dir, Open (path_join photos_dir (lit ''a.jpg'')), Get (lit ''a''),
        Close (path_join photos_dir (lit ''a.jpg''))]
   \<and> downloads (snd (snd (syncFolder no_a [entry_a, entry_b] photos_dir state_empty photos [])))
       (lit ''b'') = 0
   \<and> obj_get (known_of (fst (snd (syncFolder no_a [entry_a, entry_b] photos_dir state_empty
       photos []))) photos) (lit ''b'') = None"
  by (simp add: run_defs no_a_def state_empty_def skipped_def known_of_def downloads_def)

section \<open>Google-native entries\<close>

lemma addUpdate_drop_skipped:
  "addUpdate w localPath fs known tr =
   addUpdate w localPath (filter (\<lambda>f. \<not> skipped f) fs) known tr"
proof (induction fs arbitrary: known tr)
  case Nil
  then show ?case by simp
next
  case (Cons f fs)
  show ?case
  proof (cases "skipped f")
    case True
    then show ?thesis by (simp add: syncFile_skipped Cons.IH)
  next
    case False
    obtain r1 k1 t1 where step: "syncFile w localPath f known tr = (r1, k1, t1)"
      by (cases "syncFile w localPath f known tr")
    show ?thesis by (cases r1) (simp_all add: False step Cons.IH)
  qed
qed

lemma addUpdate_drop_native:
  "addUpdate w localPath fs known tr =
   addUpdate w localPath (filter (\<lambda>f. \<not> isGoogleMime (f_mimeType f)) fs) known tr"
proof -
  have "filter (\<lambda>f. \<not> skipped f) (filter (\<lambda>f. \<not> isGoogleMime (f_mimeType f)) fs) =
      filter (\<lambda>f. \<not> skipped f) fs"
    by (auto simp: skipped_def intro: filter_cong)
  then show ?thesis
    using addUpdate_drop_skipped [of w localPath fs known tr]
      addUpdate_drop_skipped [of w localPath "filter (\<lambda>f. \<not> isGoogleMime (f_mimeType f)) fs" known tr]
    by simp
qed

lemma classify_rootFiles:
  assumes "\<forall>f\<in>set (snd acc). \<not> isGoogleMime (f_mimeType f)"
  shows "\<forall>f\<in>set (snd (classify w acc item)). \<not> isGoogleMime (f_mimeType f)"
  using assms
  by (cases acc; cases "f_name item"; cases "f_mimeType item") (auto simp: classify_def)

lemma foldl_classify_rootFiles:
  assumes "\<forall>f\<in>set (snd acc). \<not> isGoogleMime (f_mimeType f)"
  shows "\<forall>f\<in>set (snd (foldl (classify w) acc items)). \<not> isGoogleMime (f_mimeType f)"
  using assms
proof (induction items arbitrary: acc)
  case Nil
  then show ?case by simp
next
  case (Cons item items)
  from classify_rootFiles [OF Cons.prems] have
    "\<forall>f\<in>set (snd (classify w acc item)). \<not> isGoogleMime (f_mimeType f)" .
  from Cons.IH [OF this] show ?case by simp
qed

lemma rootFiles_not_native:
  "\<forall>f\<in>set (snd (partition_items w rootItems)). \<not> isGoogleMime (f_mimeType f)"
  unfolding partition_items_def by (rule foldl_classify_rootFiles) simp

lemma syncFile_native:
  "isGoogleMime (f_mimeType f) \<Longrightarrow> syncFile w localPath f known tr = (Done (), known, tr)"
  by (simp add: syncFile_skipped skipped_def)

lemma isGoogleMime_prefix:
  "isGoogleMime mt \<longleftrightarrow> (\<exists>t. mt = Val t \<and> prefix (lit ''application/vnd.google-apps.'') t)"
  by (cases mt) (simp_all add: isGoogleMime_def IGNORE_GOOGLE_MIMES_def)

lemma addUpdate_all_skipped:
  assumes "addUpdate w localPath fs known tr = (r, known', tr')"
    and "\<forall>g\<in>set fs. f_id g = Val j \<longrightarrow> skipped g"
  shows "obj_get known' j = obj_get known j \<and> downloads tr' j = downloads tr j"
proof -
  from assms(1) have "addUpdate w localPath (filter (\<lambda>f. \<not> skipped f) fs) known tr = (r, known', tr')"
    using addUpdate_drop_skipped [of w localPath fs known tr] by simp
  moreover from assms(2) have "\<forall>g\<in>set (filter (\<lambda>f. \<not> skipped f) fs). f_id g \<noteq> Val j"
    by auto
  ultimately show ?thesis by (rule addUpdate_other)
qed

lemma syncFolder_all_skipped:
  assumes run: "syncFolder w fs localPath state key tr = (r, state', tr')"
    and listed: "Val j \<in> set (map f_id fs)"
    and skip: "\<forall>g\<in>set fs. f_id g = Val j \<longrightarrow> skipped g"
  shows "obj_get (known_of state' key) j = obj_get (known_of state key) j
    \<and> downloads tr' j = downloads tr j"
  using run
proof (cases rule: syncFolder_cases)
  case mkdir
  then show ?thesis by (simp add: downloads_snoc_mkdir)
next
  case (aborted e k1)
  from addUpdate_all_skipped [OF aborted(2) skip] aborted(4)
  show ?thesis by (simp add: known_of_store downloads_snoc_mkdir)
next
  case (completed k1 t1 k2)
  from addUpdate_all_skipped [OF completed(2) skip]
    cleanup_keep [OF completed(3) listed] cleanup_downloads [OF completed(3), of j] completed(4)
  show ?thesis by (simp add: known_of_store downloads_snoc_mkdir)
qed

text \<open>
  C7. Let the \<open>mimeType\<close> of a listing entry \<open>f\<close> start with \<open>application/vnd.google-apps.\<close>.
  Then the body of the first loop does nothing for \<open>f\<close>; the first loop of \<open>syncFolder\<close>,
  for a named folder or the root alike, makes the calls and leaves the records it would
  without \<open>f\<close>; \<open>f\<close> is never among the root files of \<open>main\<close>; and when every entry of the
  id of \<open>f\<close> is of this kind, \<open>syncFolder\<close> leaves the record of that id as it was (none,
  if there was none) and requests no content for it.
\<close>

theorem native_entries_never_downloaded:
  assumes "f_mimeType f = Val t" and "prefix (lit ''application/vnd.google-apps.'') t"
  shows "syncFile w localPath f known tr = (Done (), known, tr)
    \<and> addUpdate w localPath (pre @ f # post) known tr = addUpdate w localPath (pre @ post) known tr
    \<and> f \<notin> set (snd (partition_items w rootItems))
    \<and> (syncFolder w fs localPath state key tr = (r, state', tr') \<longrightarrow> f \<in> set fs \<longrightarrow>
         f_id f = Val i \<longrightarrow> (\<forall>g\<in>set fs. f_id g = Val i \<longrightarrow> isGoogleMime (f_mimeType g)) \<longrightarrow>
         obj_get (known_of state' key) i = obj_get (known_of state key) i
         \<and> downloads tr' i = downloads tr i)"
proof -
  from assms have native: "isGoogleMime (f_mimeType f)" by (simp add: isGoogleMime_prefix)
  then have a: "syncFile w localPath f known' tr' = (Done (), known', tr')" for known' tr'
    by (rule syncFile_native)
  have b: "addUpdate w localPath (pre @ f # post) known tr = addUpdate w localPath (pre @ post) known tr"
    by (simp add: addUpdate_append a split: prod.splits res.splits)
  have c: "f \<notin> set (snd (partition_items w rootItems))"
    using rootFiles_not_native native by blast
  have d: "obj_get (known_of state' key) i = obj_get (known_of state key) i
         \<and> downloads tr' i = downloads tr i"
    if run: "syncFolder w fs localPath state key tr = (r, state', tr')" and mem: "f \<in> set fs"
      and fid: "f_id f = Val i" and all: "\<forall>g\<in>set fs. f_id g = Val i \<longrightarrow> isGoogleMime (f_mimeType g)"
  proof -
    from mem fid have listed: "Val i \<in> set (map f_id fs)" by force
    from all have "\<forall>g\<in>set fs. f_id g = Val i \<longrightarrow> skipped g" by (simp add: skipped_def)
    from syncFolder_all_skipped [OF run listed this] show ?thesis .
  qed
  from a b c d show ?thesis by blast
qed

theorem native_entries_never_downloaded_witness:
  "syncFolder quiet [entry_doc, entry_b] photos_dir state_empty photos []
     = syncFolder quiet [entry_b] photos_dir state_empty photos []
   \<and> addUpdate quiet photos_dir ([] @ entry_doc # [entry_b]) [] []
     = addUpdate quiet photos_dir ([] @ [entry_b]) [] []
   \<and> obj_get (known_of (fst (snd (syncFolder quiet [entry_doc, entry_b] photos_dir state_empty photos [])))
        photos) (lit ''d'') = None
   \<and> prefix (lit ''application/vnd.google-apps.'') (lit ''application/vnd.google-apps.document'')"
proof -
  let ?run = "syncFolder quiet [entry_doc, entry_b] photos_dir state_empty photos []"
  have mt: "f_mimeType entry_doc = Val (lit ''application/vnd.google-apps.document'')"
    by (simp add: entry_doc_def)
  have pre: "prefix (lit ''application/vnd.google-apps.'') (lit ''application/vnd.google-apps.document'')"
    by (simp add: lit_def)
  have run: "?run = (fst ?run, fst (snd ?run), snd (snd ?run))" by simp
  have mem: "entry_doc \<in> set [entry_doc, entry_b]" by simp
  have fid: "f_id entry_doc = Val (lit ''d'')" by (simp add: entry_doc_def)
  have all: "\<forall>g\<in>set [entry_doc, entry_b]. f_id g = Val (lit ''d'') \<longrightarrow> isGoogleMime (f_mimeType g)"
    by (simp add: entry_doc_def entry_b_def isGoogleMime_def IGNORE_GOOGLE_MIMES_def lit_def)
  have none: "obj_get (known_of state_empty photos) (lit ''d'') = None"
    by (simp add: known_of_def state_empty_def obj_simps)
  have same: "?run = syncFolder quiet [entry_b] photos_dir state_empty photos []"
    by (simp add: run_defs world_defs entry_doc_def)
  from native_entries_never_downloaded [OF mt pre, of quiet photos_dir "[]" "[]" "[]" "[entry_b]"
      "[]" "[entry_doc, entry_b]" state_empty photos "fst ?run" "fst (snd ?run)" "snd (snd ?run)" "lit ''d''"]
    run mem fid all none pre same
  show ?thesis by simp
qed

section \<open>The order of the media map\<close>







section \<open>The calls of syncFolder and of the loop over the folders\<close>

lemma set_obj_assign: "set (obj_assign ob k v) \<subseteq> insert (k, v) (set ob)"
  by (induction ob) (auto split: if_splits)

lemma set_obj_create: "set (obj_create ob k v) = insert (k, v) (set ob)"
proof (induction ob)
  case Nil
  show ?case by simp
next
  case (Cons p ps)
  obtain k' v' where p: "p = (k', v')" by (cases p)
  show ?case
  proof (cases "is_array_index k \<and> (is_array_index k' \<longrightarrow> index_value k < index_value k')")
    case True
    then have "obj_create (p # ps) k v = (k, v) # p # ps" by (simp add: p)
    then show ?thesis by simp
  next
    case False
    then have "obj_create (p # ps) k v = p # obj_create ps k v" by (auto simp: p)
    then show ?thesis using Cons.IH by (simp add: insert_commute)
  qed
qed

lemma set_obj_set: "set (obj_set ob k v) \<subseteq> insert (k, v) (set ob)"
  using set_obj_assign [of ob k v] by (simp add: obj_set_def set_obj_create)

lemma cleanup_calls:
  assumes "cleanup w localPath driveIds ids known tr = (r, known', tr')"
  shows "\<exists>ext. tr' = tr @ ext \<and> list_all unlink_call ext"
  using assms
proof (induction ids arbitrary: known tr)
  case Nil
  then show ?case by simp
next
  case (Cons i ids)
  obtain r1 k1 t1 where step: "removeMissing w localPath driveIds i known tr = (r1, k1, t1)"
    by (cases "removeMissing w localPath driveIds i known tr")
  have "\<exists>e1. t1 = tr @ e1 \<and> list_all unlink_call e1"
  proof (cases "Val i \<in> set driveIds")
    case True
    with step show ?thesis by (simp add: removeMissing_listed)
  next
    case False
    with step show ?thesis
      by (cases "obj_get known i") (auto simp: removeMissing_unlisted)
  qed
  then obtain e1 where e1: "t1 = tr @ e1" "list_all unlink_call e1" by blast
  show ?case
  proof (cases r1)
    case (Threw e)
    with step Cons.prems have "tr' = t1" by simp
    with e1 show ?thesis by blast
  next
    case (Done u)
    with step Cons.prems have "cleanup w localPath driveIds ids k1 t1 = (r, known', tr')" by simp
    from Cons.IH [OF this] obtain e2 where "tr' = t1 @ e2" "list_all unlink_call e2" by blast
    with e1 have "tr' = tr @ (e1 @ e2)" "list_all unlink_call (e1 @ e2)" by simp_all
    then show ?thesis by blast
  qed
qed

lemma syncFolder_calls:
  assumes "syncFolder w fs localPath state key tr = (r, state', tr')"
  shows "\<exists>ext. tr' = tr @ Mkdir localPath # ext \<and> (\<forall>c\<in>set ext. fetch_call c \<or> unlink_call c)"
  using assms
proof (cases rule: syncFolder_cases)
  case mkdir
  then show ?thesis by simp
next
  case (aborted e k1)
  from addUpdate_calls [OF aborted(2)] obtain e1 where
    "tr' = (tr @ [Mkdir localPath]) @ e1" "list_all fetch_call e1" by blast
  then have "tr' = tr @ Mkdir localPath # e1" "\<forall>c\<in>set e1. fetch_call c \<or> unlink_call c"
    by (simp_all add: list_all_iff)
  then show ?thesis by blast
next
  case (completed k1 t1 k2)
  from addUpdate_calls [OF completed(2)] obtain e1 where
    e1: "t1 = (tr @ [Mkdir localPath]) @ e1" "list_all fetch_call e1" by blast
  from cleanup_calls [OF completed(3)] obtain e2 where
    e2: "tr' = t1 @ e2" "list_all unlink_call e2" by blast
  from e1 e2 have "tr' = tr @ Mkdir localPath # (e1 @ e2)"
    "\<forall>c\<in>set (e1 @ e2). fetch_call c \<or> unlink_call c"
    by (auto simp: list_all_iff)
  then show ?thesis by blast
qed

lemma syncFolder_other_key:
  assumes "syncFolder w fs localPath state key tr = (r, state', tr')" and "n \<noteq> key"
  shows "obj_get (dirs state') n = obj_get (dirs state) n"
  using assms(1)
  by (cases rule: syncFolder_cases) (simp_all add: dirs_store_other [OF assms(2)])

lemma listFolder_result:
  assumes "listFolder w i tr = (r, tr')"
  shows "tr' = tr @ [ListFiles (template i)] \<and> (r = Done (listing w (template i)) \<or> (\<exists>e. r = Threw e))"
  using assms by (auto simp: listFolder_def Let_def split: if_splits)

lemma syncFolders_keeps:
  assumes "syncFolders w entries state tr = (r, state', tr')" and "n \<notin> fst ` set entries"
  shows "obj_get (dirs state') n = obj_get (dirs state) n"
  using assms
proof (induction entries arbitrary: state tr)
  case Nil
  then show ?case by simp
next
  case (Cons p entries)
  obtain k i where p: "p = (k, i)" by (cases p)
  from Cons.prems(2) have kn: "n \<noteq> k" and rest: "n \<notin> fst ` set entries" by (auto simp: p)
  obtain r1 t1 where l: "listFolder w i tr = (r1, t1)" by (cases "listFolder w i tr")
  show ?case
  proof (cases r1)
    case (Threw e)
    with l Cons.prems(1) show ?thesis by (simp add: p)
  next
    case (Done fs)
    obtain r2 s2 t2 where s: "syncFolder w fs (path_join PUBLIC_DIR k) state k t1 = (r2, s2, t2)"
      by (cases "syncFolder w fs (path_join PUBLIC_DIR k) state k t1")
    from syncFolder_other_key [OF s kn] have keep: "obj_get (dirs s2) n = obj_get (dirs state) n" .
    show ?thesis
    proof (cases r2)
      case (Threw e)
      with l Done s Cons.prems(1) keep show ?thesis by (simp add: p)
    next
      case (Done u)
      with l \<open>r1 = Done fs\<close> s Cons.prems(1) have "syncFolders w entries s2 t2 = (r, state', tr')"
        by (simp add: p)
      from Cons.IH [OF this rest] keep show ?thesis by simp
    qed
  qed
qed

lemma syncFolders_calls:
  assumes "syncFolders w entries state tr = (r, state', tr')"
  shows "\<exists>ext. tr' = tr @ ext \<and>
           (\<forall>c\<in>set ext. fetch_call c \<or> unlink_call c
              \<or> (\<exists>p\<in>set entries. c = ListFiles (template (snd p))
                                 \<or> c = Mkdir (path_join PUBLIC_DIR (fst p))))"
  using assms
proof (induction entries arbitrary: state tr)
  case Nil
  then show ?case by simp
next
  case (Cons p entries)
  obtain k i where p: "p = (k, i)" by (cases p)
  let ?ok = "\<lambda>es c. fetch_call c \<or> unlink_call c
              \<or> (\<exists>p\<in>set es. c = ListFiles (template (snd p))
                                 \<or> c = Mkdir (path_join PUBLIC_DIR (fst p)))"
  obtain r1 t1 where l: "listFolder w i tr = (r1, t1)" by (cases "listFolder w i tr")
  from listFolder_result [OF l] have t1: "t1 = tr @ [ListFiles (template i)]" by simp
  show ?case
  proof (cases r1)
    case (Threw e)
    with l Cons.prems have "tr' = tr @ [ListFiles (template i)]" by (simp add: p t1)
    moreover have "\<forall>c\<in>set [ListFiles (template i)]. ?ok (p # entries) c" by (simp add: p)
    ultimately show ?thesis by blast
  next
    case (Done fs)
    obtain r2 s2 t2 where s: "syncFolder w fs (path_join PUBLIC_DIR k) state k t1 = (r2, s2, t2)"
      by (cases "syncFolder w fs (path_join PUBLIC_DIR k) state k t1")
    from syncFolder_calls [OF s] obtain e2 where
      e2: "t2 = t1 @ Mkdir (path_join PUBLIC_DIR k) # e2" "\<forall>c\<in>set e2. fetch_call c \<or> unlink_call c"
      by blast
    have head: "\<forall>c\<in>set (ListFiles (template i) # Mkdir (path_join PUBLIC_DIR k) # e2). ?ok (p # entries) c"
      using e2(2) by (auto simp: p)
    have t2: "t2 = tr @ (ListFiles (template i) # Mkdir (path_join PUBLIC_DIR k) # e2)"
      using e2(1) t1 by simp
    show ?thesis
    proof (cases r2)
      case (Threw e)
      with l Done s Cons.prems have "tr' = t2" by (simp add: p)
      with t2 head show ?thesis by blast
    next
      case (Done u)
      with l \<open>r1 = Done fs\<close> s Cons.prems have "syncFolders w entries s2 t2 = (r, state', tr')"
        by (simp add: p)
      from Cons.IH [OF this] obtain e3 where
        e3: "tr' = t2 @ e3" "\<forall>c\<in>set e3. ?ok entries c" by blast
      from e3(2) have "\<forall>c\<in>set e3. ?ok (p # entries) c" by auto
      with head have "\<forall>c\<in>set ((ListFiles (template i) # Mkdir (path_join PUBLIC_DIR k) # e2) @ e3).
          ?ok (p # entries) c"
        by (metis UnE set_append)
      moreover have "tr' = tr @ ((ListFiles (template i) # Mkdir (path_join PUBLIC_DIR k) # e2) @ e3)"
        using e3(1) t2 by simp
      ultimately show ?thesis by blast
    qed
  qed
qed

section \<open>main\<close>

lemma classify_folders:
  assumes "\<forall>p\<in>set (fst acc). \<not> ignoredFolder w (fst p) \<and>
             (\<exists>g\<in>S. f_name g = Val (fst p) \<and> f_id g = snd p)"
    and "item \<in> S"
  shows "\<forall>p\<in>set (fst (classify w acc item)). \<not> ignoredFolder w (fst p) \<and>
             (\<exists>g\<in>S. f_name g = Val (fst p) \<and> f_id g = snd p)"
proof -
  obtain folders rootFiles where acc: "acc = (folders, rootFiles)" by (cases acc)
  show ?thesis
  proof (cases "\<exists>k. f_name item = Val k \<and> k \<noteq> [] \<and> \<not> ignoredFolder w k
      \<and> fst (classify w acc item) = obj_set folders k (f_id item)")
    case True
    then obtain k where k: "f_name item = Val k" "\<not> ignoredFolder w k"
      "fst (classify w acc item) = obj_set folders k (f_id item)" by blast
    show ?thesis
    proof
      fix p assume "p \<in> set (fst (classify w acc item))"
      then have "p = (k, f_id item) \<or> p \<in> set folders"
        using set_obj_set [of folders k "f_id item"] by (auto simp: k(3))
      then show "\<not> ignoredFolder w (fst p) \<and> (\<exists>g\<in>S. f_name g = Val (fst p) \<and> f_id g = snd p)"
        using assms k(1,2) by (auto simp: acc)
    qed
  next
    case False
    then have "fst (classify w acc item) = folders"
      by (cases "f_name item"; cases "f_mimeType item") (auto simp: classify_def acc)
    with assms(1) show ?thesis by (simp add: acc)
  qed
qed

lemma foldl_classify_folders:
  assumes "\<forall>p\<in>set (fst acc). \<not> ignoredFolder w (fst p) \<and>
             (\<exists>g\<in>S. f_name g = Val (fst p) \<and> f_id g = snd p)"
    and "set items \<subseteq> S"
  shows "\<forall>p\<in>set (fst (foldl (classify w) acc items)). \<not> ignoredFolder w (fst p) \<and>
             (\<exists>g\<in>S. f_name g = Val (fst p) \<and> f_id g = snd p)"
  using assms
proof (induction items arbitrary: acc)
  case Nil
  then show ?case by simp
next
  case (Cons item items)
  from Cons.prems(2) have "item \<in> S" "set items \<subseteq> S" by simp_all
  from Cons.IH [OF classify_folders [OF Cons.prems(1) this(1)] this(2)]
  show ?case by simp
qed

lemma folders_not_ignored:
  "\<forall>p\<in>set (fst (partition_items w rootItems)). \<not> ignoredFolder w (fst p) \<and>
     (\<exists>g\<in>set rootItems. f_name g = Val (fst p) \<and> f_id g = snd p)"
  unfolding partition_items_def by (rule foldl_classify_folders) simp_all

lemma finish_result:
  assumes "finish w state tr = (r, state', tr')"
  shows "state' = state \<and>
    (\<exists>ext. tr' = tr @ WriteFile STATE_PATH (StateDoc state) # ext \<and>
       set ext \<subseteq> {Mkdir DATA_DIR,
                   WriteFile (path_join DATA_DIR (lit ''media-map.json'')) (MapDoc (mediaMap state))})"
  using assms
  by (auto simp: finish_def saveState_def writeFile_def split: if_splits)

lemma main_result:
  assumes "main w = (r, so, tr)"
  shows "(so = None \<and> tr = [])
    \<or> (\<exists>folderId s. env w ''GOOGLE_DRIVE_FOLDER_ID'' = Done folderId \<and> so = Some s
         \<and> (\<forall>n. n \<notin> fst ` set (fst (partition_items w (listing w folderId))) \<longrightarrow> n \<noteq> ROOT_KEY \<longrightarrow>
                obj_get (dirs s) n = obj_get (dirs (loadState w)) n)
         \<and> (\<forall>c\<in>set tr.
                c = ListFiles folderId \<or> fetch_call c \<or> unlink_call c
              \<or> (\<exists>p\<in>set (fst (partition_items w (listing w folderId))).
                    c = ListFiles (template (snd p)) \<or> c = Mkdir (path_join PUBLIC_DIR (fst p)))
              \<or> c = Mkdir PUBLIC_DIR \<or> c = Mkdir DATA_DIR
              \<or> c = WriteFile STATE_PATH (StateDoc s)
              \<or> (\<exists>m. c = WriteFile (path_join DATA_DIR (lit ''media-map.json'')) (MapDoc m))))"
proof (cases "getDrive w")
  case (Threw e)
  with assms show ?thesis by (simp add: main_def)
next
  case (Done drive)
  note drive = this
  show ?thesis
  proof (cases "env w ''GOOGLE_DRIVE_FOLDER_ID''")
    case (Threw e)
    with assms drive show ?thesis by (simp add: main_def)
  next
    case (Done folderId)
    note fid = this
    let ?F = "fst (partition_items w (listing w folderId))"
    let ?R = "snd (partition_items w (listing w folderId))"
    let ?keeps = "\<lambda>s. \<forall>n. n \<notin> fst ` set ?F \<longrightarrow> n \<noteq> ROOT_KEY \<longrightarrow>
                obj_get (dirs s) n = obj_get (dirs (loadState w)) n"
    let ?ok = "\<lambda>s c. c = ListFiles folderId \<or> fetch_call c \<or> unlink_call c
              \<or> (\<exists>p\<in>set ?F. c = ListFiles (template (snd p)) \<or> c = Mkdir (path_join PUBLIC_DIR (fst p)))
              \<or> c = Mkdir PUBLIC_DIR \<or> c = Mkdir DATA_DIR
              \<or> c = WriteFile STATE_PATH (StateDoc s)
              \<or> (\<exists>m. c = WriteFile (path_join DATA_DIR (lit ''media-map.json'')) (MapDoc m))"
    have goal: ?thesis if "so = Some s" "?keeps s" "\<forall>c\<in>set tr. ?ok s c" for s
      using that fid by blast
    obtain r1 t1 where l: "listFolder w (Val folderId) [] = (r1, t1)"
      by (cases "listFolder w (Val folderId) []")
    from listFolder_result [OF l] have t1: "t1 = [ListFiles folderId]"
      and r1: "r1 = Done (listing w folderId) \<or> (\<exists>e. r1 = Threw e)" by simp_all
    show ?thesis
    proof (cases r1)
      case (Threw e)
      with assms drive fid l have "so = Some (loadState w)" "tr = t1" by (simp_all add: main_def)
      then show ?thesis using t1 by (intro goal [of "loadState w"]) simp_all
    next
      case (Done items)
      with r1 have items: "items = listing w folderId" by simp
      obtain r2 s2 t2 where f: "syncFolders w ?F (loadState w) t1 = (r2, s2, t2)"
        by (cases "syncFolders w ?F (loadState w) t1")
      have k2: "?keeps s2" using syncFolders_keeps [OF f] by simp
      from syncFolders_calls [OF f] obtain e2 where
        e2: "t2 = t1 @ e2" "\<forall>c\<in>set e2. fetch_call c \<or> unlink_call c
              \<or> (\<exists>p\<in>set ?F. c = ListFiles (template (snd p))
                                 \<or> c = Mkdir (path_join PUBLIC_DIR (fst p)))" by blast
      have ok2: "\<forall>c\<in>set t2. ?ok s c" for s
        using e2 t1 by auto
      show ?thesis
      proof (cases r2)
        case (Threw e)
        with assms drive fid l Done items f have "so = Some s2" "tr = t2" by (simp_all add: main_def)
        then show ?thesis using k2 ok2 by (intro goal [of s2]) simp_all
      next
        case (Done u2)
        note r2 = this
        obtain r3 s3 t3 where g: "syncFolder w ?R PUBLIC_DIR s2 ROOT_KEY t2 = (r3, s3, t3)"
          by (cases "syncFolder w ?R PUBLIC_DIR s2 ROOT_KEY t2")
        have k3: "?keeps s3"
          using k2 syncFolder_other_key [OF g] by simp
        from syncFolder_calls [OF g] obtain e3 where
          e3: "t3 = t2 @ Mkdir PUBLIC_DIR # e3" "\<forall>c\<in>set e3. fetch_call c \<or> unlink_call c"
          by blast
        have ok3: "\<forall>c\<in>set t3. ?ok s c" for s
          using e3 ok2 [of s] by auto
        show ?thesis
        proof (cases r3)
          case (Threw e)
          with assms drive fid l \<open>r1 = Done items\<close> items f r2 g
          have "so = Some s3" "tr = t3" by (simp_all add: main_def)
          then show ?thesis using k3 ok3 by (intro goal [of s3]) simp_all
        next
          case (Done u3)
          obtain r4 s4 t4 where h: "finish w s3 t3 = (r4, s4, t4)"
            by (cases "finish w s3 t3")
          from finish_result [OF h] obtain e4 where s4: "s4 = s3"
            and e4: "t4 = t3 @ WriteFile STATE_PATH (StateDoc s3) # e4"
              "set e4 \<subseteq> {Mkdir DATA_DIR,
                   WriteFile (path_join DATA_DIR (lit ''media-map.json'')) (MapDoc (mediaMap s3))}"
            by blast
          have ok4: "\<forall>c\<in>set t4. ?ok s3 c"
            using e4 ok3 [of s3] by auto
          from assms drive fid l \<open>r1 = Done items\<close> items f r2 g Done h
          have "so = Some s4" "tr = t4" by (simp_all add: main_def)
          then show ?thesis using k3 ok4 s4 by (intro goal [of s3]) simp_all
        qed
      qed
    qed
  qed
qed

lemma root_key_not_ignored:
  "toLowerCase w ROOT_KEY = ROOT_KEY \<Longrightarrow> \<not> ignoredFolder w ROOT_KEY"
  by (simp add: ignoredFolder_def IGNORED_FOLDERS_def ROOT_KEY_def lit_def)

lemma eval_main_partition:
  "partition_items drive0 [folder_item ''S'' ''Private'', folder_item ''P'' ''Photos'']
     = ([(lit ''Photos'', Val (lit ''P''))], [])"
  by (simp add: partition_items_def classify_def folder_item_def FOLDER_MIME_def ignoredFolder_def
      IGNORED_FOLDERS_def drive0_def ascii_lower_def obj_set_def obj_simps lit_def
      is_array_index_def digit_def)

lemma eval_main:
  "main drive0 =
     (Done (),
      Some \<lparr>dirs = [(lit ''Private'', \<lparr>files = [(lit ''s'', rec_b)]\<rparr>),
                    (lit ''Photos'', \<lparr>files = [(lit ''a'', rec_a)]\<rparr>),
                    (lit ''public-root'', \<lparr>files = []\<rparr>)]\<rparr>,
      [ListFiles (lit ''root''), ListFiles (lit ''P''),
       Mkdir [lit ''public'', lit ''Photos''],
       Open [lit ''public'', lit ''Photos'', lit ''a.jpg''], Get (lit ''a''),
       Close [lit ''public'', lit ''Photos'', lit ''a.jpg''],
       Mkdir [lit ''public''],
       WriteFile [lit ''.drive-sync.json'']
         (StateDoc \<lparr>dirs = [(lit ''Private'', \<lparr>files = [(lit ''s'', rec_b)]\<rparr>),
                    (lit ''Photos'', \<lparr>files = [(lit ''a'', rec_a)]\<rparr>),
                    (lit ''public-root'', \<lparr>files = []\<rparr>)]\<rparr>),
       Mkdir [lit ''src/data''],
       WriteFile [lit ''src/data'', lit ''media-map.json'']
         (MapDoc [(lit ''Private'', [lit ''/Private/b.png'']),
                  (lit ''Photos'', [lit ''/Photos/a.jpg'']),
                  (lit ''public-root'', [])])])"
proof -
  have env: "getDrive drive0 = Done ()" "env drive0 ''GOOGLE_DRIVE_FOLDER_ID'' = Done (lit ''root'')"
    by (simp_all add: getDrive_def env_def drive0_def lit_def)
  have l0: "listFolder drive0 (Val (lit ''root'')) [] =
      (Done [folder_item ''S'' ''Private'', folder_item ''P'' ''Photos''], [ListFiles (lit ''root'')])"
    by (simp add: listFolder_def listing_def drive0_def)
  have l1: "listFolder drive0 (Val (lit ''P'')) [ListFiles (lit ''root'')] =
      (Done [entry_a], [ListFiles (lit ''root''), ListFiles (lit ''P'')])"
    by (simp add: listFolder_def listing_def drive0_def lit_def)
  have ls: "loadState drive0 = state_private" by (simp add: loadState_def drive0_def)
  have s1: "syncFolder drive0 [entry_a] (path_join PUBLIC_DIR (lit ''Photos'')) state_private (lit ''Photos'')
        [ListFiles (lit ''root''), ListFiles (lit ''P'')] =
      (Done (),
       \<lparr>dirs = [(lit ''Private'', \<lparr>files = [(lit ''s'', rec_b)]\<rparr>),
                    (lit ''Photos'', \<lparr>files = [(lit ''a'', rec_a)]\<rparr>)]\<rparr>,
       [ListFiles (lit ''root''), ListFiles (lit ''P''),
        Mkdir [lit ''public'', lit ''Photos''],
        Open [lit ''public'', lit ''Photos'', lit ''a.jpg''], Get (lit ''a''),
        Close [lit ''public'', lit ''Photos'', lit ''a.jpg'']])"
    by (simp add: run_defs state_private_def drive0_def)
  have s2: "syncFolder drive0 [] PUBLIC_DIR
        \<lparr>dirs = [(lit ''Private'', \<lparr>files = [(lit ''s'', rec_b)]\<rparr>),
                    (lit ''Photos'', \<lparr>files = [(lit ''a'', rec_a)]\<rparr>)]\<rparr> ROOT_KEY
        [ListFiles (lit ''root''), ListFiles (lit ''P''),
        Mkdir [lit ''public'', lit ''Photos''],
        Open [lit ''public'', lit ''Photos'', lit ''a.jpg''], Get (lit ''a''),
        Close [lit ''public'', lit ''Photos'', lit ''a.jpg'']] =
      (Done (),
       \<lparr>dirs = [(lit ''Private'', \<lparr>files = [(lit ''s'', rec_b)]\<rparr>),
                    (lit ''Photos'', \<lparr>files = [(lit ''a'', rec_a)]\<rparr>),
                    (lit ''public-root'', \<lparr>files = []\<rparr>)]\<rparr>,
       [ListFiles (lit ''root''), ListFiles (lit ''P''),
        Mkdir [lit ''public'', lit ''Photos''],
        Open [lit ''public'', lit ''Photos'', lit ''a.jpg''], Get (lit ''a''),
        Close [lit ''public'', lit ''Photos'', lit ''a.jpg''],
        Mkdir [lit ''public'']])"
    by (simp add: run_defs ROOT_KEY_def drive0_def)
  have mm: "mediaMap \<lparr>dirs = [(lit ''Private'', \<lparr>files = [(lit ''s'', rec_b)]\<rparr>),
                    (lit ''Photos'', \<lparr>files = [(lit ''a'', rec_a)]\<rparr>),
                    (lit ''public-root'', \<lparr>files = []\<rparr>)]\<rparr> =
      [(lit ''Private'', [lit ''/Private/b.png'']),
       (lit ''Photos'', [lit ''/Photos/a.jpg'']),
       (lit ''public-root'', [])]"
    by (simp add: mediaMap_def obj_set_def obj_simps obj_values_def publicPath_def ROOT_KEY_def
        rec_a_def rec_b_def lit_def is_array_index_def digit_def)
  have fin: "finish drive0
        \<lparr>dirs = [(lit ''Private'', \<lparr>files = [(lit ''s'', rec_b)]\<rparr>),
                    (lit ''Photos'', \<lparr>files = [(lit ''a'', rec_a)]\<rparr>),
                    (lit ''public-root'', \<lparr>files = []\<rparr>)]\<rparr> tr =
      (Done (),
       \<lparr>dirs = [(lit ''Private'', \<lparr>files = [(lit ''s'', rec_b)]\<rparr>),
                    (lit ''Photos'', \<lparr>files = [(lit ''a'', rec_a)]\<rparr>),
                    (lit ''public-root'', \<lparr>files = []\<rparr>)]\<rparr>,
       tr @ [WriteFile [lit ''.drive-sync.json'']
         (StateDoc \<lparr>dirs = [(lit ''Private'', \<lparr>files = [(lit ''s'', rec_b)]\<rparr>),
                    (lit ''Photos'', \<lparr>files = [(lit ''a'', rec_a)]\<rparr>),
                    (lit ''public-root'', \<lparr>files = []\<rparr>)]\<rparr>),
       Mkdir [lit ''src/data''],
       WriteFile [lit ''src/data'', lit ''media-map.json'']
         (MapDoc [(lit ''Private'', [lit ''/Private/b.png'']),
                  (lit ''Photos'', [lit ''/Photos/a.jpg'']),
                  (lit ''public-root'', [])])])" for tr
    by (simp add: finish_def saveState_def writeFile_def mm STATE_PATH_def DATA_DIR_def
        path_join_def drive0_def)
  show ?thesis
    by (simp add: main_def env l0 eval_main_partition l1 ls s1 s2 fin)
qed

section \<open>Ignored folders\<close>

text \<open>
  C6. Let the lowercased name \<open>n\<close> contain \<open>assets\<close>, \<open>cursors\<close> or \<open>private\<close> (and let the
  runtime leave the lowercase literal \<open>public-root\<close> as it is). However \<open>main\<close> ends: \<open>n\<close> is
  never a key of the folders to sync; the directory \<open>public/n\<close> is never prepared; a
  folder of that name in the root listing is never listed, provided no other root item
  is queried by its id and the id is not the root's; and what the state holds under the
  key \<open>n\<close> is what the state file held, in memory at the end and in every state document
  written.
\<close>

theorem ignored_folder_untouched:
  assumes "main w = (r, so, tr)"
    and "ignoredFolder w n"
    and "toLowerCase w ROOT_KEY = ROOT_KEY"
  shows "(\<forall>s. so = Some s \<longrightarrow> obj_get (dirs s) n = obj_get (dirs (loadState w)) n)
    \<and> (\<forall>s. WriteFile STATE_PATH (StateDoc s) \<in> set tr \<longrightarrow>
          obj_get (dirs s) n = obj_get (dirs (loadState w)) n)
    \<and> Mkdir (path_join PUBLIC_DIR n) \<notin> set tr
    \<and> n \<notin> set (obj_keys (fst (partition_items w items)))
    \<and> (\<forall>folderId d i. env w ''GOOGLE_DRIVE_FOLDER_ID'' = Done folderId \<longrightarrow>
          d \<in> set (listing w folderId) \<longrightarrow> f_name d = Val n \<longrightarrow> template (f_id d) = i \<longrightarrow>
          i \<noteq> folderId \<longrightarrow> (\<forall>g\<in>set (listing w folderId). template (f_id g) = i \<longrightarrow> g = d) \<longrightarrow>
          ListFiles i \<notin> set tr)"
proof -
  have nr: "n \<noteq> ROOT_KEY" using root_key_not_ignored [OF assms(3)] assms(2) by auto
  have nf: "n \<notin> fst ` set (fst (partition_items w xs))" for xs
    using folders_not_ignored [of w xs] assms(2) by auto
  then have d: "n \<notin> set (obj_keys (fst (partition_items w items)))"
    by (simp add: obj_keys_def)
  have paths: "path_join PUBLIC_DIR n \<noteq> PUBLIC_DIR" "path_join PUBLIC_DIR n \<noteq> DATA_DIR"
    by (simp_all add: path_join_def PUBLIC_DIR_def DATA_DIR_def)
  from main_result [OF assms(1)] show ?thesis
  proof
    assume "so = None \<and> tr = []"
    with d show ?thesis by simp
  next
    assume "\<exists>folderId s. env w ''GOOGLE_DRIVE_FOLDER_ID'' = Done folderId \<and> so = Some s
         \<and> (\<forall>n. n \<notin> fst ` set (fst (partition_items w (listing w folderId))) \<longrightarrow> n \<noteq> ROOT_KEY \<longrightarrow>
                obj_get (dirs s) n = obj_get (dirs (loadState w)) n)
         \<and> (\<forall>c\<in>set tr.
                c = ListFiles folderId \<or> fetch_call c \<or> unlink_call c
              \<or> (\<exists>p\<in>set (fst (partition_items w (listing w folderId))).
                    c = ListFiles (template (snd p)) \<or> c = Mkdir (path_join PUBLIC_DIR (fst p)))
              \<or> c = Mkdir PUBLIC_DIR \<or> c = Mkdir DATA_DIR
              \<or> c = WriteFile STATE_PATH (StateDoc s)
              \<or> (\<exists>m. c = WriteFile (path_join DATA_DIR (lit ''media-map.json'')) (MapDoc m)))"
    then obtain folderId s where fid: "env w ''GOOGLE_DRIVE_FOLDER_ID'' = Done folderId"
      and so: "so = Some s"
      and keeps_all: "\<forall>n. n \<notin> fst ` set (fst (partition_items w (listing w folderId))) \<longrightarrow>
                n \<noteq> ROOT_KEY \<longrightarrow> obj_get (dirs s) n = obj_get (dirs (loadState w)) n"
      and calls_all: "\<forall>c\<in>set tr.
                c = ListFiles folderId \<or> fetch_call c \<or> unlink_call c
              \<or> (\<exists>p\<in>set (fst (partition_items w (listing w folderId))).
                    c = ListFiles (template (snd p)) \<or> c = Mkdir (path_join PUBLIC_DIR (fst p)))
              \<or> c = Mkdir PUBLIC_DIR \<or> c = Mkdir DATA_DIR
              \<or> c = WriteFile STATE_PATH (StateDoc s)
              \<or> (\<exists>m. c = WriteFile (path_join DATA_DIR (lit ''media-map.json'')) (MapDoc m))"
      by (elim exE conjE)
    have keeps: "obj_get (dirs s) n = obj_get (dirs (loadState w)) n"
      using keeps_all nf nr by simp
    have calls: "c = ListFiles folderId \<or> fetch_call c \<or> unlink_call c
              \<or> (\<exists>p\<in>set (fst (partition_items w (listing w folderId))).
                    c = ListFiles (template (snd p)) \<or> c = Mkdir (path_join PUBLIC_DIR (fst p)))
              \<or> c = Mkdir PUBLIC_DIR \<or> c = Mkdir DATA_DIR
              \<or> c = WriteFile STATE_PATH (StateDoc s)
              \<or> (\<exists>m. c = WriteFile (path_join DATA_DIR (lit ''media-map.json'')) (MapDoc m))"
      if "c \<in> set tr" for c
      using calls_all that by (rule bspec)
    let ?F = "fst (partition_items w (listing w folderId))"
    have a: "\<forall>s'. so = Some s' \<longrightarrow> obj_get (dirs s') n = obj_get (dirs (loadState w)) n"
      using so keeps by simp
    have b: "\<forall>s'. WriteFile STATE_PATH (StateDoc s') \<in> set tr \<longrightarrow>
          obj_get (dirs s') n = obj_get (dirs (loadState w)) n"
    proof (intro allI impI)
      fix s' assume "WriteFile STATE_PATH (StateDoc s') \<in> set tr"
      from calls [OF this] have "s' = s" by auto
      with keeps show "obj_get (dirs s') n = obj_get (dirs (loadState w)) n" by simp
    qed
    have c: "Mkdir (path_join PUBLIC_DIR n) \<notin> set tr"
    proof
      assume "Mkdir (path_join PUBLIC_DIR n) \<in> set tr"
      from calls [OF this] paths obtain p where "p \<in> set ?F"
        "path_join PUBLIC_DIR n = path_join PUBLIC_DIR (fst p)" by auto
      then have "n \<in> fst ` set ?F" by (auto simp: path_join_def)
      with nf show False by blast
    qed
    have e: "ListFiles i \<notin> set tr"
      if "env w ''GOOGLE_DRIVE_FOLDER_ID'' = Done folderId'" and mem: "d \<in> set (listing w folderId')"
        and name: "f_name d = Val n" and "template (f_id d) = i" and ne: "i \<noteq> folderId'"
        and only: "\<forall>g\<in>set (listing w folderId'). template (f_id g) = i \<longrightarrow> g = d"
      for folderId' d i
    proof
      assume "ListFiles i \<in> set tr"
      from that(1) fid have same: "folderId' = folderId" by simp
      from calls [OF \<open>ListFiles i \<in> set tr\<close>] ne same obtain p where p: "p \<in> set ?F"
        "i = template (snd p)" by auto
      from folders_not_ignored [of w "listing w folderId"] p(1) obtain g where
        g: "g \<in> set (listing w folderId)" "f_name g = Val (fst p)" "f_id g = snd p"
        and ok: "\<not> ignoredFolder w (fst p)" by blast
      from only g(1,3) p(2) same have "g = d" by simp
      with g(2) name have "fst p = n" by simp
      with ok assms(2) show False by simp
    qed
    from a b c d e show ?thesis by blast
  qed
qed

theorem ignored_folder_untouched_witness:
  "ignoredFolder drive0 (lit ''Private'')
   \<and> folder_item ''S'' ''Private'' \<in> set (listing drive0 (lit ''root''))
   \<and> fst (main drive0) = Done ()
   \<and> obj_get (dirs (loadState drive0)) (lit ''Private'') = Some \<lparr>files = [(lit ''s'', rec_b)]\<rparr>
   \<and> (\<exists>s. fst (snd (main drive0)) = Some s
          \<and> obj_get (dirs s) (lit ''Private'') = Some \<lparr>files = [(lit ''s'', rec_b)]\<rparr>)
   \<and> Mkdir (path_join PUBLIC_DIR (lit ''Private'')) \<notin> set (snd (snd (main drive0)))
   \<and> ListFiles (lit ''S'') \<notin> set (snd (snd (main drive0)))
   \<and> ListFiles (lit ''P'') \<in> set (snd (snd (main drive0)))"
proof -
  let ?m = "main drive0"
  have run: "?m = (fst ?m, fst (snd ?m), snd (snd ?m))" by simp
  have ign: "ignoredFolder drive0 (lit ''Private'')"
    by (simp add: ignoredFolder_def IGNORED_FOLDERS_def drive0_def ascii_lower_def lit_def)
  have low: "toLowerCase drive0 ROOT_KEY = ROOT_KEY"
    by (simp add: drive0_def ascii_lower_def ROOT_KEY_def lit_def)
  have fid: "env drive0 ''GOOGLE_DRIVE_FOLDER_ID'' = Done (lit ''root'')"
    by (simp add: env_def drive0_def lit_def)
  have ls: "listing drive0 (lit ''root'') = [folder_item ''S'' ''Private'', folder_item ''P'' ''Photos'']"
    by (simp add: listing_def drive0_def)
  have mem: "folder_item ''S'' ''Private'' \<in> set (listing drive0 (lit ''root''))"
    by (simp add: ls)
  have nm: "f_name (folder_item ''S'' ''Private'') = Val (lit ''Private'')"
    and tid: "template (f_id (folder_item ''S'' ''Private'')) = lit ''S''"
    by (simp_all add: folder_item_def)
  have ne: "lit ''S'' \<noteq> lit ''root''" by (simp add: lit_def)
  have only: "\<forall>g\<in>set (listing drive0 (lit ''root'')). template (f_id g) = lit ''S'' \<longrightarrow>
      g = folder_item ''S'' ''Private''"
    unfolding ls by (simp add: folder_item_def lit_def)
  have before: "obj_get (dirs (loadState drive0)) (lit ''Private'') = Some \<lparr>files = [(lit ''s'', rec_b)]\<rparr>"
    by (simp add: loadState_def drive0_def state_private_def obj_simps)
  have some: "fst (snd ?m) = Some \<lparr>dirs = [(lit ''Private'', \<lparr>files = [(lit ''s'', rec_b)]\<rparr>),
                    (lit ''Photos'', \<lparr>files = [(lit ''a'', rec_a)]\<rparr>),
                    (lit ''public-root'', \<lparr>files = []\<rparr>)]\<rparr>"
    and ok: "fst ?m = Done ()"
    and listed: "ListFiles (lit ''P'') \<in> set (snd (snd ?m))"
    by (simp_all add: eval_main)
  from ignored_folder_untouched [OF run ign low, of "[]"] fid mem nm tid ne only
  have "(\<forall>s. fst (snd ?m) = Some s \<longrightarrow>
          obj_get (dirs s) (lit ''Private'') = obj_get (dirs (loadState drive0)) (lit ''Private''))
    \<and> Mkdir (path_join PUBLIC_DIR (lit ''Private'')) \<notin> set (snd (snd ?m))
    \<and> ListFiles (lit ''S'') \<notin> set (snd (snd ?m))"
    by blast
  with ign mem ok before some listed show ?thesis by simp
qed

section \<open>The second loop on objects\<close>

lemma syncFile_distinct:
  assumes "syncFile w localPath f known tr = (r, known', tr')" and "distinct (obj_keys known)"
  shows "distinct (obj_keys known')"
proof (cases "skipped f")
  case True
  with assms show ?thesis by (simp add: syncFile_skipped)
next
  case False
  then obtain i n where f: "f_id f = Val i" "f_name f = Val n" using not_skipped by blast
  from assms show ?thesis
    by (auto simp: syncFile_not_skipped [OF f False] distinct_obj_set
        split: if_splits prod.splits res.splits)
qed

lemma addUpdate_distinct:
  assumes "addUpdate w localPath fs known tr = (r, known', tr')" and "distinct (obj_keys known)"
  shows "distinct (obj_keys known')"
  using assms
proof (induction fs arbitrary: known tr)
  case Nil
  then show ?case by simp
next
  case (Cons f fs)
  obtain r1 k1 t1 where step: "syncFile w localPath f known tr = (r1, k1, t1)"
    by (cases "syncFile w localPath f known tr")
  from syncFile_distinct [OF step Cons.prems(2)] have d: "distinct (obj_keys k1)" .
  show ?case
  proof (cases r1)
    case (Threw e)
    with step Cons.prems(1) d show ?thesis by simp
  next
    case (Done u)
    with step Cons.prems(1) have "addUpdate w localPath fs k1 t1 = (r, known', tr')" by simp
    from Cons.IH [OF this d] show ?thesis .
  qed
qed

text \<open>
  On objects the second loop never reads a missing property: when the first loop has
  completed, \<open>syncFolder\<close> completes.
\<close>

lemma syncFolder_completes:
  assumes "\<not> fails w (Mkdir localPath)"
    and "addUpdate w localPath fs (known_of state key) (tr @ [Mkdir localPath]) = (Done u, k1, t1)"
    and "distinct (obj_keys (known_of state key))"
  shows "fst (syncFolder w fs localPath state key tr) = Done ()"
proof -
  from addUpdate_distinct [OF assms(2,3)] have d: "distinct (map fst k1)"
    by (simp add: obj_keys_def)
  then have all: "\<forall>p\<in>set k1. obj_get k1 (fst p) = Some (snd p)"
    using obj_get_entry [of k1] by (simp add: obj_keys_def)
  from cleanup_entries [OF d all, of w localPath "map f_id fs" t1]
  obtain k2 t2 where "cleanup w localPath (map f_id fs) (obj_keys k1) k1 t1 = (Done (), k2, t2)"
    by (simp add: obj_keys_def)
  from syncFolder_done [OF assms(1,2) this] show ?thesis by simp
qed

section \<open>Records that left the listing\<close>

lemma syncFile_keeps_keys:
  assumes "syncFile w localPath f known tr = (r, known', tr')"
  shows "set (obj_keys known) \<subseteq> set (obj_keys known')"
proof (cases "skipped f")
  case True
  with assms show ?thesis by (simp add: syncFile_skipped)
next
  case False
  then obtain i n where f: "f_id f = Val i" "f_name f = Val n" using not_skipped by blast
  from assms show ?thesis
    by (auto simp: syncFile_not_skipped [OF f False] set_obj_keys_set
        split: if_splits prod.splits res.splits)
qed

lemma addUpdate_keeps_keys:
  assumes "addUpdate w localPath fs known tr = (r, known', tr')"
  shows "set (obj_keys known) \<subseteq> set (obj_keys known')"
  using assms
proof (induction fs arbitrary: known tr)
  case Nil
  then show ?case by simp
next
  case (Cons f fs)
  obtain r1 k1 t1 where step: "syncFile w localPath f known tr = (r1, k1, t1)"
    by (cases "syncFile w localPath f known tr")
  from syncFile_keeps_keys [OF step] have sub: "set (obj_keys known) \<subseteq> set (obj_keys k1)" .
  show ?case
  proof (cases r1)
    case (Threw e)
    with step Cons.prems sub show ?thesis by simp
  next
    case (Done u)
    with step Cons.prems have "addUpdate w localPath fs k1 t1 = (r, known', tr')" by simp
    from Cons.IH [OF this] sub show ?thesis by blast
  qed
qed

text \<open>
  C5. Let the first loop of \<open>syncFolder\<close> complete, so that the deletion pass is reached,
  on a state whose \<open>files\<close> is an object (no key twice), in a plain run (the directory
  key and the ids of the listing are read as own properties). Then \<open>syncFolder\<close> completes,
  whether or not a call of \<open>fs.unlink\<close> fails (the file may be missing): after the calls of
  the first loop it calls \<open>fs.unlink\<close> on \<open>localPath/name\<close> for exactly the records whose id is
  not among the ids of the listing, and the state it returns holds under the key exactly
  the other records, as the first loop left them. So every record of the state whose id
  is absent from the listing has its file unlinked and is removed, every record whose id
  is in the listing is still there, and the other directories of the state are untouched.
\<close>

theorem syncFolder_deletes_unlisted:
  assumes "\<not> fails w (Mkdir localPath)"
    and "addUpdate w localPath fs (known_of state key) (tr @ [Mkdir localPath]) = (Done u, k1, t1)"
    and "distinct (obj_keys (known_of state key))"
    and "plain_run state key fs"
  shows "\<exists>state' tr'.
      syncFolder w fs localPath state key tr = (Done (), state', tr')
    \<and> known_of state' key = filter (\<lambda>p. Val (fst p) \<in> set (map f_id fs)) k1
    \<and> tr' = t1 @ map (\<lambda>p. Unlink (path_join localPath (name (snd p))))
                    (filter (\<lambda>p. Val (fst p) \<notin> set (map f_id fs)) k1)
    \<and> (\<forall>i rec. obj_get (known_of state key) i = Some rec \<longrightarrow> Val i \<notin> set (map f_id fs) \<longrightarrow>
          Unlink (path_join localPath (name rec)) \<in> set tr'
          \<and> obj_get (known_of state' key) i = None)
    \<and> (\<forall>i rec. obj_get (known_of state key) i = Some rec \<longrightarrow> Val i \<in> set (map f_id fs) \<longrightarrow>
          obj_get (known_of state' key) i = obj_get k1 i \<and> obj_get k1 i \<noteq> None)
    \<and> (\<forall>n. n \<noteq> key \<longrightarrow> obj_get (dirs state') n = obj_get (dirs state) n)"
proof -
  let ?ids = "map f_id fs"
  let ?keep = "filter (\<lambda>p. Val (fst p) \<in> set ?ids) k1"
  let ?gone = "filter (\<lambda>p. Val (fst p) \<notin> set ?ids) k1"
  let ?tr = "t1 @ map (\<lambda>p. Unlink (path_join localPath (name (snd p)))) ?gone"
  let ?state = "store state key (dir_of state key) ?keep"
  from addUpdate_distinct [OF assms(2,3)] have d: "distinct (obj_keys k1)" .
  from cleanup_result [OF d, of w localPath ?ids t1]
  have cl: "cleanup w localPath ?ids (obj_keys k1) k1 t1 = (Done (), ?keep, ?tr)"
    and gone: "\<And>i rec. obj_get k1 i = Some rec \<Longrightarrow> Val i \<notin> set ?ids \<Longrightarrow>
          Unlink (path_join localPath (name rec)) \<in> set ?tr \<and> obj_get ?keep i = None"
    and kept: "\<And>i. Val i \<in> set ?ids \<Longrightarrow> obj_get ?keep i = obj_get k1 i"
    by auto
  from syncFolder_done [OF assms(1,2) cl]
  have run: "syncFolder w fs localPath state key tr = (Done (), ?state, ?tr)" .
  have known: "known_of ?state key = ?keep" by (rule known_of_store)
  have a: "Unlink (path_join localPath (name rec)) \<in> set ?tr \<and> obj_get (known_of ?state key) i = None"
    if "obj_get (known_of state key) i = Some rec" "Val i \<notin> set ?ids" for i rec
  proof -
    from that(2) have "\<forall>f\<in>set fs. f_id f \<noteq> Val i" by (metis image_eqI set_map)
    from addUpdate_other [OF assms(2) this] that(1) have "obj_get k1 i = Some rec" by simp
    from gone [OF this that(2)] show ?thesis unfolding known .
  qed
  have b: "obj_get (known_of ?state key) i = obj_get k1 i \<and> obj_get k1 i \<noteq> None"
    if "obj_get (known_of state key) i = Some rec" "Val i \<in> set ?ids" for i rec
  proof -
    from that(1) have "i \<in> set (obj_keys (known_of state key))" by (simp add: obj_keys_iff)
    with addUpdate_keeps_keys [OF assms(2)] have "i \<in> set (obj_keys k1)" by blast
    then have "obj_get k1 i \<noteq> None" by (simp add: obj_keys_iff)
    with kept [OF that(2)] show ?thesis unfolding known by simp
  qed
  have c: "obj_get (dirs ?state) n = obj_get (dirs state) n" if "n \<noteq> key" for n
    using that by (rule dirs_store_other)
  from run known a b c show ?thesis by blast
qed

theorem syncFolder_deletes_unlisted_witness:
  "syncFolder no_unlink [entry_a] photos_dir state_ab photos [] =
     (Done (),
      \<lparr>dirs = [(photos, \<lparr>files = [(lit ''a'', rec_a)]\<rparr>)]\<rparr>,
      [Mkdir photos_dir, Unlink (path_join photos_dir (lit ''b.png''))])
   \<and> fails no_unlink (Unlink (path_join photos_dir (lit ''b.png'')))
   \<and> obj_get (known_of state_ab photos) (lit ''b'') = Some rec_b
   \<and> obj_get (known_of (fst (snd (syncFolder no_unlink [entry_a] photos_dir state_ab photos [])))
        photos) (lit ''b'') = None
   \<and> plain_run state_ab photos [entry_a]"
proof -
  let ?run = "syncFolder no_unlink [entry_a] photos_dir state_ab photos []"
  have mk: "\<not> fails no_unlink (Mkdir photos_dir)"
    by (simp add: no_unlink_def quiet_def)
  have known: "known_of state_ab photos = [(lit ''a'', rec_a), (lit ''b'', rec_b)]"
    by (simp add: known_of_def state_ab_def obj_simps)
  have au: "addUpdate no_unlink photos_dir [entry_a] (known_of state_ab photos) ([] @ [Mkdir photos_dir])
      = (Done (), known_of state_ab photos, [Mkdir photos_dir])"
    unfolding known
    by (simp add: syncFile_def entry_a_def rec_a_def isGoogleMime_def IGNORE_GOOGLE_MIMES_def
        changed_def obj_simps lit_def)
  have d: "distinct (obj_keys (known_of state_ab photos))"
    by (simp add: known obj_simps lit_def)
  have plain: "plain_run state_ab photos [entry_a]"
    by (simp add: plain_run_def inherited_def PROTO_NAMES_def state_ab_def obj_simps entry_a_def
        photos_def lit_def)
  have bad: "fails no_unlink (Unlink (path_join photos_dir (lit ''b.png'')))"
    by (simp add: no_unlink_def)
  have recb: "obj_get (known_of state_ab photos) (lit ''b'') = Some rec_b"
    by (simp add: known obj_simps lit_def)
  have unlisted: "Val (lit ''b'') \<notin> set (map f_id [entry_a])"
    by (simp add: entry_a_def lit_def)
  have val: "?run =
     (Done (),
      \<lparr>dirs = [(photos, \<lparr>files = [(lit ''a'', rec_a)]\<rparr>)]\<rparr>,
      [Mkdir photos_dir, Unlink (path_join photos_dir (lit ''b.png''))])"
    by (simp add: run_defs state_ab_def no_unlink_def)
  from syncFolder_deletes_unlisted [OF mk au d plain] recb unlisted
  have "obj_get (known_of (fst (snd ?run)) photos) (lit ''b'') = None"
    by auto
  with val bad recb plain show ?thesis by simp
qed

end
